theory Spec2Isabelle
  imports Complex_Main "HOL-Library.Char_ord" "HOL-Library.List_Lexorder"
begin

section \<open>The simulator's data model (fs\_deadlock\_sim/models.py)\<close>

text \<open>
  Identifiers (\<open>pid\<close>, \<open>rid\<close>) are Python \<open>str\<close>; they are modelled as \<open>string\<close>,
  ordered lexicographically (\<open>Char_ord\<close>, \<open>List_Lexorder\<close>), which is how Python compares
  strings. A Python \<open>Set[str]\<close> is a \<open>string set\<close>, \<open>Optional[str]\<close> a \<open>string option\<close>.
\<close>

datatype ProcessState = RUNNING | BLOCKED | DEADLOCKED | FINISHED

record Resource =
  rid :: string
  held_by :: "string option"

record Process =
  pid :: string
  plan :: "string list"
  held_resources :: "string set"
  current_request :: "string option"
  state :: ProcessState
  waiting_steps :: int

text \<open>The exceptions the modelled code can raise.\<close>

datatype error = KeyError | ValueError | IndexError | RecursionError

text \<open>
  \<open>Process.next_request\<close>: terminal and blocked processes request nothing; otherwise the
  unheld part of the plan is computed, and the ordered mode takes \<open>sorted(remaining)[0]\<close>
  while the naive mode scans the plan for the first unheld resource.
\<close>

definition next_request :: "Process \<Rightarrow> bool \<Rightarrow> string option" where
  "next_request p ordered_mode =
     (if state p = BLOCKED \<or> state p = DEADLOCKED \<or> state p = FINISHED then None
      else
        let remaining = filter (\<lambda>r. r \<notin> held_resources p) (plan p) in
        if remaining = [] then None
        else if ordered_mode then Some (hd (sort remaining))
        else find (\<lambda>resource_id. resource_id \<notin> held_resources p) (plan p))"

definition has_all_resources :: "Process \<Rightarrow> bool" where
  "has_all_resources p = list_all (\<lambda>r. r \<in> held_resources p) (plan p)"

definition mark_blocked :: "Process \<Rightarrow> string \<Rightarrow> Process" where
  "mark_blocked p resource_id = p\<lparr>state := BLOCKED, current_request := Some resource_id\<rparr>"

definition mark_deadlocked :: "Process \<Rightarrow> Process" where
  "mark_deadlocked p = p\<lparr>state := DEADLOCKED\<rparr>"

text \<open>The unheld plan resources, and "first in plan order", stated without the code.\<close>

definition unheld :: "Process \<Rightarrow> string set" where
  "unheld p = {r \<in> set (plan p). r \<notin> held_resources p}"

definition first_unheld :: "Process \<Rightarrow> string \<Rightarrow> bool" where
  "first_unheld p r =
     (\<exists>i < length (plan p). plan p ! i = r \<and> r \<notin> held_resources p \<and>
        (\<forall>j < i. plan p ! j \<in> held_resources p))"

text \<open>A process of the demonstration scenario, used to instantiate the theorems.\<close>

definition demo_P2 :: Process where
  "demo_P2 = \<lparr>pid = ''P2'', plan = [''R2'', ''R1''], held_resources = {},
     current_request = None, state = RUNNING, waiting_steps = 0\<rparr>"

section \<open>The wait-for detector (fs\_deadlock\_sim/deadlock\_detector.py)\<close>

text \<open>
  The wait-for graph is a Python \<open>Dict[str, Set[str]]\<close>. The dictionary keeps its keys in
  insertion order, which \<open>_find_cycle\<close> follows; the order in which a Python set is iterated
  is not fixed by the language. The graph is therefore an association list from a process
  id to the list of its successors in the order they are iterated: a theorem about every
  such list covers every iteration order. \<open>graph.get(node, set())\<close> is \<open>graph_get\<close>,
  \<open>graph.setdefault(p, set()).add(q)\<close> is \<open>graph_add\<close>.
\<close>

type_synonym graph = "(string \<times> string list) list"

definition graph_get :: "graph \<Rightarrow> string \<Rightarrow> string list" where
  "graph_get g n = (case map_of g n of None \<Rightarrow> [] | Some vs \<Rightarrow> vs)"

fun graph_add :: "graph \<Rightarrow> string \<Rightarrow> string \<Rightarrow> graph" where
  "graph_add [] p q = [(p, [q])]"
| "graph_add ((k, vs) # g) p q =
     (if k = p then (k, if q \<in> set vs then vs else vs @ [q]) # g
      else (k, vs) # graph_add g p q)"

definition edge :: "graph \<Rightarrow> string \<Rightarrow> string \<Rightarrow> bool" where
  "edge g u v = (v \<in> set (graph_get g u))"

text \<open>Python truthiness of an \<open>Optional[str]\<close>: \<open>None\<close> and the empty string are false.\<close>

fun truthy :: "string option \<Rightarrow> bool" where
  "truthy None = False"
| "truthy (Some s) = (s \<noteq> [])"

text \<open>
  \<open>build_wait_for_graph\<close>: the loop over the processes, with the graph built so far as
  accumulator. \<open>resources[process.current_request]\<close> raises \<open>KeyError\<close> on a missing key.
\<close>

fun build_loop :: "Process list \<Rightarrow> (string \<rightharpoonup> Resource) \<Rightarrow> graph \<Rightarrow> error + graph" where
  "build_loop [] rs g = Inr g"
| "build_loop (process # ps) rs g =
     (if state process = BLOCKED \<and> truthy (current_request process) then
        (case current_request process of
           None \<Rightarrow> build_loop ps rs g
         | Some r \<Rightarrow>
            (case rs r of
               None \<Rightarrow> Inl KeyError
             | Some res \<Rightarrow>
                (case held_by res of
                   None \<Rightarrow> build_loop ps rs g
                 | Some holder \<Rightarrow>
                     if holder \<noteq> [] \<and> holder \<noteq> pid process
                     then build_loop ps rs (graph_add g (pid process) holder)
                     else build_loop ps rs g)))
      else build_loop ps rs g)"

definition build_wait_for_graph :: "Process list \<Rightarrow> (string \<rightharpoonup> Resource) \<Rightarrow> error + graph" where
  "build_wait_for_graph ps rs = build_loop ps rs []"

text \<open>
  \<open>_find_cycle\<close>. The closure \<open>dfs\<close> mutates \<open>visited\<close>, \<open>stack\<close> and \<open>path\<close>; the model
  passes them as a state and returns the state with the result. \<open>dfs\<close> calls itself, and
  the interpreter allows only so many nested calls (\<open>sys.getrecursionlimit()\<close>, 1000 unless
  it is changed, less the frames in use when \<open>_find_cycle\<close> is entered): one call more
  raises \<open>RecursionError\<close>. The first argument of \<open>dfs\<close> is the number of nested calls
  still allowed. \<open>stack.remove\<close>, \<open>path.pop\<close> and \<open>path.index\<close> raise on a missing
  element, and so does the model. Nothing in the detector catches an exception.
\<close>

datatype 'a outcome = Raise error | Return 'a

record dfs_state =
  visited :: "string set"
  stack :: "string set"
  path :: "string list"

fun index_of :: "'a list \<Rightarrow> 'a \<Rightarrow> nat option" where
  "index_of [] x = None"
| "index_of (y # ys) x = (if y = x then Some 0 else map_option Suc (index_of ys x))"

definition push :: "string \<Rightarrow> dfs_state \<Rightarrow> dfs_state" where
  "push node st = st\<lparr>visited := insert node (visited st), stack := insert node (stack st),
                 path := path st @ [node]\<rparr>"

fun dfs :: "nat \<Rightarrow> graph \<Rightarrow> string \<Rightarrow> dfs_state \<Rightarrow> (string list option \<times> dfs_state) outcome"
and dfs_neighbors :: "nat \<Rightarrow> graph \<Rightarrow> string list \<Rightarrow> dfs_state \<Rightarrow>
      (string list option \<times> dfs_state) outcome" where
  "dfs 0 g node st = Raise RecursionError"
| "dfs (Suc n) g node st =
     (case dfs_neighbors n g (graph_get g node) (push node st) of
        Raise e \<Rightarrow> Raise e
      | Return (Some c, st') \<Rightarrow> Return (Some c, st')
      | Return (None, st') \<Rightarrow>
          if node \<notin> stack st' then Raise KeyError
          else if path st' = [] then Raise IndexError
          else Return (None, st'\<lparr>stack := stack st' - {node}, path := butlast (path st')\<rparr>))"
| "dfs_neighbors n g [] st = Return (None, st)"
| "dfs_neighbors n g (neighbor # rest) st =
     (if neighbor \<notin> visited st then
        (case dfs n g neighbor st of
           Raise e \<Rightarrow> Raise e
         | Return (found, st') \<Rightarrow>
             if found \<noteq> None \<and> found \<noteq> Some [] then Return (found, st')
             else dfs_neighbors n g rest st')
      else if neighbor \<in> stack st then
        (case index_of (path st) neighbor of
           None \<Rightarrow> Raise ValueError
         | Some idx \<Rightarrow> Return (Some (drop idx (path st) @ [neighbor]), st))
      else dfs_neighbors n g rest st)"

text \<open>The loop over \<open>list(graph.keys())\<close>.\<close>

fun dfs_roots :: "nat \<Rightarrow> graph \<Rightarrow> string list \<Rightarrow> dfs_state \<Rightarrow> string list option outcome" where
  "dfs_roots n g [] st = Return None"
| "dfs_roots n g (node # rest) st =
     (if node \<notin> visited st then
        (case dfs n g node st of
           Raise e \<Rightarrow> Raise e
         | Return (cycle, st') \<Rightarrow>
             if cycle \<noteq> None \<and> cycle \<noteq> Some [] then Return cycle
             else dfs_roots n g rest st')
      else dfs_roots n g rest st)"

definition node_list :: "graph \<Rightarrow> string list" where
  "node_list g = map fst g @ concat (map snd g)"

text \<open>\<open>_find_cycle\<close>, entered when the interpreter still allows \<open>limit\<close> nested calls.\<close>

definition find_cycle :: "nat \<Rightarrow> graph \<Rightarrow> string list option outcome" where
  "find_cycle limit g =
     dfs_roots limit g (map fst g) \<lparr>visited = {}, stack = {}, path = []\<rparr>"

text \<open>
  \<open>detect_deadlock\<close>. Both the list of edges and the search iterate the successor sets
  of the graph that has been built, in the order the interpreter gives a set of strings
  (it depends on the hashes of the strings): \<open>order\<close> is that order, as a function from
  the elements in insertion order to the elements as iterated (\<open>iterates\<close>).
\<close>

definition iterates :: "(string list \<Rightarrow> string list) \<Rightarrow> bool" where
  "iterates order = (\<forall>vs. set (order vs) = set vs)"

definition iterated :: "(string list \<Rightarrow> string list) \<Rightarrow> graph \<Rightarrow> graph" where
  "iterated order g = map (\<lambda>(u, vs). (u, order vs)) g"

definition detect_deadlock ::
  "nat \<Rightarrow> (string list \<Rightarrow> string list) \<Rightarrow> Process list \<Rightarrow> (string \<rightharpoonup> Resource) \<Rightarrow>
     (bool \<times> (string \<times> string) list \<times> string list) outcome" where
  "detect_deadlock limit order ps rs =
     (case build_wait_for_graph ps rs of
        Inl e \<Rightarrow> Raise e
      | Inr built \<Rightarrow>
          let graph = iterated order built;
              edges = concat (map (\<lambda>(u, vs). map (\<lambda>v. (u, v)) vs) graph)
          in (case find_cycle limit graph of
                Raise e \<Rightarrow> Raise e
              | Return cycle \<Rightarrow>
                  Return (cycle \<noteq> None, edges, (case cycle of None \<Rightarrow> [] | Some c \<Rightarrow> c))))"

subsection \<open>Notions the detector's properties are stated with\<close>

text \<open>
  The edge a BLOCKED process contributes, as the code decides it (\<open>code_edge\<close>: the
  request and the holder pass Python's truthiness test) and as the wait-for edge is
  defined without that test (\<open>spec_edge\<close>).
\<close>

definition code_edge :: "Process list \<Rightarrow> (string \<rightharpoonup> Resource) \<Rightarrow> string \<Rightarrow> string \<Rightarrow> bool" where
  "code_edge ps rs p q =
     (\<exists>proc \<in> set ps. pid proc = p \<and> state proc = BLOCKED \<and>
        (\<exists>r res. current_request proc = Some r \<and> r \<noteq> [] \<and> rs r = Some res \<and>
           held_by res = Some q \<and> q \<noteq> p))"

definition spec_edge :: "Process list \<Rightarrow> (string \<rightharpoonup> Resource) \<Rightarrow> string \<Rightarrow> string \<Rightarrow> bool" where
  "spec_edge ps rs p q =
     (\<exists>proc \<in> set ps. pid proc = p \<and> state proc = BLOCKED \<and>
        (\<exists>r res. current_request proc = Some r \<and> rs r = Some res \<and>
           held_by res = Some q \<and> q \<noteq> p))"

definition valid_cycle :: "graph \<Rightarrow> string list \<Rightarrow> bool" where
  "valid_cycle g c =
     (c \<noteq> [] \<and> hd c = last c \<and> (\<forall>i. Suc i < length c \<longrightarrow> edge g (c ! i) (c ! Suc i)))"

definition edges_of :: "graph \<Rightarrow> (string \<times> string) set" where
  "edges_of g = {(u, v). edge g u v}"

definition has_cycle :: "graph \<Rightarrow> bool" where
  "has_cycle g = (\<exists>u. (u, u) \<in> (edges_of g)\<^sup>+)"

text \<open>
  Invariants of the search: the set \<open>stack\<close> holds the nodes of \<open>path\<close>, which is a path of
  the graph, and every node on it is visited (\<open>dfs_inv\<close>); what a call of \<open>dfs\<close> leaves
  behind (\<open>dfs_post\<close>); the finished nodes (visited, no longer on the stack) are closed
  under the edges and lie on no cycle (\<open>dfs_black\<close>).
\<close>

definition dfs_inv :: "graph \<Rightarrow> dfs_state \<Rightarrow> bool" where
  "dfs_inv g st =
     (stack st = set (path st) \<and> stack st \<subseteq> visited st \<and> successively (edge g) (path st))"

fun dfs_post :: "graph \<Rightarrow> dfs_state \<Rightarrow> (string list option \<times> dfs_state) outcome \<Rightarrow> bool" where
  "dfs_post g st (Raise e) = (e = RecursionError)"
| "dfs_post g st (Return (Some c, st')) = valid_cycle g c"
| "dfs_post g st (Return (None, st')) =
     (stack st' = stack st \<and> path st' = path st \<and> visited st \<subseteq> visited st' \<and> dfs_inv g st')"

definition dfs_black :: "graph \<Rightarrow> dfs_state \<Rightarrow> bool" where
  "dfs_black g st =
     (\<forall>u \<in> visited st - stack st.
        (\<forall>v. edge g u v \<longrightarrow> v \<in> visited st - stack st) \<and> (u, u) \<notin> (edges_of g)\<^sup>+)"

subsection \<open>Inputs the detector's theorems are instantiated at\<close>

text \<open>The graph \<open>{A\<rightarrow>B, B\<rightarrow>C, C\<rightarrow>A, D\<rightarrow>B}\<close>.\<close>

definition graph_S6 :: graph where
  "graph_S6 = [(''A'', [''B'']), (''B'', [''C'']), (''C'', [''A'']), (''D'', [''B''])]"

text \<open>Two processes that wait for each other: \<open>P1\<close> holds \<open>R1\<close> and wants \<open>R2\<close>, \<open>P2\<close> the reverse.\<close>

definition crossed_processes :: "Process list" where
  "crossed_processes =
     [\<lparr>pid = ''P1'', plan = [''R1'', ''R2''], held_resources = {''R1''},
        current_request = Some ''R2'', state = BLOCKED, waiting_steps = 0\<rparr>,
      \<lparr>pid = ''P2'', plan = [''R2'', ''R1''], held_resources = {''R2''},
        current_request = Some ''R1'', state = BLOCKED, waiting_steps = 0\<rparr>]"

definition crossed_resources :: "string \<rightharpoonup> Resource" where
  "crossed_resources =
     [''R1'' \<mapsto> \<lparr>rid = ''R1'', held_by = Some ''P1''\<rparr>,
      ''R2'' \<mapsto> \<lparr>rid = ''R2'', held_by = Some ''P2''\<rparr>]"

definition crossed_graph :: graph where
  "crossed_graph = [(''P1'', [''P2'']), (''P2'', [''P1''])]"

text \<open>A process blocked on the resource whose identifier is the empty string.\<close>

definition blocked_on_empty :: "Process list" where
  "blocked_on_empty =
     [\<lparr>pid = ''P1'', plan = [''''], held_resources = {},
        current_request = Some '''', state = BLOCKED, waiting_steps = 0\<rparr>]"

definition empty_id_resources :: "string \<rightharpoonup> Resource" where
  "empty_id_resources = ['''' \<mapsto> \<lparr>rid = '''', held_by = Some ''P2''\<rparr>]"

text \<open>
  A ring of \<open>n\<close> processes, each waiting for the next one: the nodes are \<open>a\<close>, \<open>aa\<close>,
  \<open>aaa\<close> and so on, and the last waits for the first.
\<close>

definition ring_node :: "nat \<Rightarrow> string" where
  "ring_node i = replicate (Suc i) CHR ''a''"

definition ring :: "nat \<Rightarrow> graph" where
  "ring n = map (\<lambda>i. (ring_node i, [ring_node (Suc i mod n)])) [0..<n]"

section \<open>The lock manager (fs\_deadlock\_sim/lock\_manager.py)\<close>

text \<open>
  \<open>LockManager.request\<close> and \<open>LockManager.release_all\<close> mutate the process they are given
  and the resources of the manager's dictionary; the model returns both updated. The
  \<open>print\<close> calls and the time \<open>t\<close>, which only they use, are left out.
  \<open>self.resources[...]\<close> raises \<open>KeyError\<close> on a missing key. \<open>release_all\<close> visits the held
  resources in the set's order; when one of them is missing the call raises, otherwise
  the result does not depend on the order.
\<close>

definition request ::
  "(string \<rightharpoonup> Resource) \<Rightarrow> Process \<Rightarrow> string \<Rightarrow> error + (bool \<times> Process \<times> (string \<rightharpoonup> Resource))" where
  "request rs process resource_id =
     (case rs resource_id of
        None \<Rightarrow> Inl KeyError
      | Some resource \<Rightarrow>
          if held_by resource = None then
            Inr (True,
                 process\<lparr>held_resources := insert resource_id (held_resources process),
                         current_request := None, state := RUNNING\<rparr>,
                 rs(resource_id \<mapsto> resource\<lparr>held_by := Some (pid process)\<rparr>))
          else if held_by resource = Some (pid process) then Inr (True, process, rs)
          else Inr (False, mark_blocked process resource_id, rs))"

definition release_all ::
  "(string \<rightharpoonup> Resource) \<Rightarrow> Process \<Rightarrow> error + (Process \<times> (string \<rightharpoonup> Resource))" where
  "release_all rs process =
     (if \<exists>res_id \<in> held_resources process. rs res_id = None then Inl KeyError
      else
        Inr (process\<lparr>held_resources := {}, current_request := None, state := FINISHED\<rparr>,
             (\<lambda>res_id.
                if res_id \<in> held_resources process then
                  (case rs res_id of
                     None \<Rightarrow> None
                   | Some resource \<Rightarrow>
                       if held_by resource = Some (pid process)
                       then Some (resource\<lparr>held_by := None\<rparr>) else Some resource)
                else rs res_id)))"

text \<open>
  The world the manager works on: the process objects (a list, a process being named by
  its position) and the resource dictionary. An operation is a call of \<open>request\<close> or of
  \<open>release_all\<close> on one of the processes; a sequence of operations stops at the first
  one that raises.
\<close>

type_synonym world = "Process list \<times> (string \<rightharpoonup> Resource)"

datatype lm_op = Request nat string | ReleaseAll nat

fun op_process :: "lm_op \<Rightarrow> nat" where
  "op_process (Request i resource_id) = i"
| "op_process (ReleaseAll i) = i"

fun lm_apply :: "lm_op \<Rightarrow> world \<Rightarrow> error + world" where
  "lm_apply (Request i resource_id) (ps, rs) =
     (case request rs (ps ! i) resource_id of
        Inl e \<Rightarrow> Inl e
      | Inr (granted, p', rs') \<Rightarrow> Inr (ps[i := p'], rs'))"
| "lm_apply (ReleaseAll i) (ps, rs) =
     (case release_all rs (ps ! i) of
        Inl e \<Rightarrow> Inl e
      | Inr (p', rs') \<Rightarrow> Inr (ps[i := p'], rs'))"

fun lm_exec :: "lm_op list \<Rightarrow> world \<Rightarrow> error + world" where
  "lm_exec [] w = Inr w"
| "lm_exec (x # xs) w = (case lm_apply x w of Inl e \<Rightarrow> Inl e | Inr w' \<Rightarrow> lm_exec xs w')"

text \<open>The initial worlds: nothing is held.\<close>

definition initial_world :: "world \<Rightarrow> bool" where
  "initial_world w =
     ((\<forall>i < length (fst w). held_resources (fst w ! i) = {}) \<and>
      (\<forall>r res. snd w r = Some res \<longrightarrow> held_by res = None))"

text \<open>
  The holding invariant: pids are distinct, a held resource exists, a holder is the pid of
  a process, and a resource is held by a process exactly when the process lists it.
\<close>

definition lm_inv :: "world \<Rightarrow> bool" where
  "lm_inv w =
     (distinct (map pid (fst w)) \<and>
      (\<forall>i < length (fst w). \<forall>r \<in> held_resources (fst w ! i). snd w r \<noteq> None) \<and>
      (\<forall>r res q. snd w r = Some res \<and> held_by res = Some q \<longrightarrow> q \<in> set (map pid (fst w))) \<and>
      (\<forall>r res. snd w r = Some res \<longrightarrow>
         (\<forall>i < length (fst w).
            held_by res = Some (pid (fst w ! i)) \<longleftrightarrow> r \<in> held_resources (fst w ! i))))"

text \<open>The processes that hold a resource, by position.\<close>

definition holders :: "world \<Rightarrow> string \<Rightarrow> nat set" where
  "holders w r = {i. i < length (fst w) \<and> r \<in> held_resources (fst w ! i)}"

text \<open>The demonstration scenario of scenarios.py, and a run of the manager on it.\<close>

definition demo_world :: world where
  "demo_world =
     ([\<lparr>pid = ''P1'', plan = [''R1'', ''R2''], held_resources = {},
         current_request = None, state = RUNNING, waiting_steps = 0\<rparr>,
       \<lparr>pid = ''P2'', plan = [''R2'', ''R1''], held_resources = {},
         current_request = None, state = RUNNING, waiting_steps = 0\<rparr>,
       \<lparr>pid = ''P3'', plan = [''R1''], held_resources = {},
         current_request = None, state = RUNNING, waiting_steps = 0\<rparr>],
      [''R1'' \<mapsto> \<lparr>rid = ''R1'', held_by = None\<rparr>, ''R2'' \<mapsto> \<lparr>rid = ''R2'', held_by = None\<rparr>])"

definition demo_ops :: "lm_op list" where
  "demo_ops = [Request 0 ''R1'', Request 1 ''R2'', Request 2 ''R1'', Request 0 ''R2'']"

section \<open>The discrete-time simulator (fs\_deadlock\_sim/simulator.py)\<close>

text \<open>
  The simulator's fields. \<open>MetricsCollector\<close> only counts what it is told and the printing
  methods only print: both are left out, and with them the time \<open>t\<close> that \<open>step\<close> does
  nothing else with.
\<close>

record Simulator =
  processes :: "Process list"
  resources :: "string \<rightharpoonup> Resource"
  mode :: string
  max_steps :: int

text \<open>\<open>__init__\<close>: the dictionary \<open>{r.rid: r for r in resources}\<close>, a later resource winning.\<close>

definition Simulator_init :: "Process list \<Rightarrow> Resource list \<Rightarrow> string \<Rightarrow> int \<Rightarrow> Simulator" where
  "Simulator_init ps rl m n =
     \<lparr>processes = ps, resources = map_of (rev (map (\<lambda>r. (rid r, r)) rl)), mode = m,
      max_steps = n\<rparr>"

text \<open>
  The body of the first loop of \<open>step\<close> for the process at position \<open>i\<close>. A blocked
  process retries its request, a running one completes (\<open>_complete_process\<close>, that is
  \<open>release_all\<close>) or requests its next target; \<open>if target:\<close> skips \<open>None\<close> and the empty
  string.
\<close>

definition step_process :: "bool \<Rightarrow> nat \<Rightarrow> world \<Rightarrow> error + world" where
  "step_process ordered_mode i w =
     (let process = fst w ! i in
      if state process = DEADLOCKED \<or> state process = FINISHED then Inr w
      else if state process = BLOCKED \<and> truthy (current_request process) then
        (case current_request process of
           None \<Rightarrow> Inr w
         | Some r \<Rightarrow> lm_apply (Request i r) w)
      else if state process = RUNNING then
        (if has_all_resources process then lm_apply (ReleaseAll i) w
         else
           (case next_request process ordered_mode of
              None \<Rightarrow> Inr w
            | Some target \<Rightarrow> if target = [] then Inr w else lm_apply (Request i target) w))
      else Inr w)"

fun step_loop :: "bool \<Rightarrow> nat list \<Rightarrow> world \<Rightarrow> error + world" where
  "step_loop ordered_mode [] w = Inr w"
| "step_loop ordered_mode (i # rest) w =
     (case step_process ordered_mode i w of
        Inl e \<Rightarrow> Inl e
      | Inr w' \<Rightarrow> step_loop ordered_mode rest w')"

text \<open>The second loop: complete every process that now holds its whole plan.\<close>

fun complete_loop :: "nat list \<Rightarrow> world \<Rightarrow> error + world" where
  "complete_loop [] w = Inr w"
| "complete_loop (i # rest) w =
     (if state (fst w ! i) = RUNNING \<and> has_all_resources (fst w ! i) then
        (case lm_apply (ReleaseAll i) w of
           Inl e \<Rightarrow> Inl e
         | Inr w' \<Rightarrow> complete_loop rest w')
      else complete_loop rest w)"

text \<open>The two loops of \<open>step\<close>, before the detector is called.\<close>

definition sweeps :: "Simulator \<Rightarrow> error + Simulator" where
  "sweeps sim =
     (let idx = [0..<length (processes sim)] in
      case step_loop (mode sim = ''ordered'') idx (processes sim, resources sim) of
        Inl e \<Rightarrow> Inl e
      | Inr w1 \<Rightarrow>
          (case complete_loop idx w1 of
             Inl e \<Rightarrow> Inl e
           | Inr (ps, rs) \<Rightarrow> Inr (sim\<lparr>processes := ps, resources := rs\<rparr>)))"

text \<open>
  \<open>_process_by_id\<close> returns the first process with the pid (a Process object is always
  true, so \<open>if proc:\<close> only skips \<open>None\<close>); the loop over the cycle marks what it finds.
\<close>

definition process_by_id :: "Process list \<Rightarrow> string \<Rightarrow> nat option" where
  "process_by_id ps q = index_of (map pid ps) q"

fun mark_cycle :: "string list \<Rightarrow> Process list \<Rightarrow> Process list" where
  "mark_cycle [] ps = ps"
| "mark_cycle (q # cycle) ps =
     (case process_by_id ps q of
        None \<Rightarrow> mark_cycle cycle ps
      | Some i \<Rightarrow> mark_cycle cycle (ps[i := mark_deadlocked (ps ! i)]))"

text \<open>
  What the interpreter decides: how many nested calls of \<open>dfs\<close> it still allows when
  \<open>_find_cycle\<close> is entered, and the order in which it iterates a set of strings.
\<close>

record interpreter =
  depth :: nat
  set_order :: "string list \<Rightarrow> string list"

text \<open>
  The detector is handed the simulator's own process objects and resource dictionary, and
  a Python method can assign to the attributes of what it is handed. Here the loop of
  \<open>build_wait_for_graph\<close> and \<open>detect_deadlock\<close> are written on the world (the processes
  by position, the dictionary), and the world is returned with the result: what the
  detector leaves of the world is then a matter of proof, not of the result type.
  \<open>_find_cycle\<close> is handed the graph only, whose nodes are strings.
\<close>

fun build_loop_heap :: "nat list \<Rightarrow> graph \<Rightarrow> world \<Rightarrow> error + (graph \<times> world)" where
  "build_loop_heap [] g w = Inr (g, w)"
| "build_loop_heap (i # rest) g w =
     (let process = fst w ! i in
      if state process = BLOCKED \<and> truthy (current_request process) then
        (case current_request process of
           None \<Rightarrow> build_loop_heap rest g w
         | Some r \<Rightarrow>
            (case snd w r of
               None \<Rightarrow> Inl KeyError
             | Some res \<Rightarrow>
                (case held_by res of
                   None \<Rightarrow> build_loop_heap rest g w
                 | Some holder \<Rightarrow>
                     if holder \<noteq> [] \<and> holder \<noteq> pid process
                     then build_loop_heap rest (graph_add g (pid process) holder) w
                     else build_loop_heap rest g w)))
      else build_loop_heap rest g w)"

definition build_wait_for_graph_heap :: "world \<Rightarrow> error + (graph \<times> world)" where
  "build_wait_for_graph_heap w = build_loop_heap [0..<length (fst w)] [] w"

definition detect_deadlock_heap ::
  "nat \<Rightarrow> (string list \<Rightarrow> string list) \<Rightarrow> world \<Rightarrow>
     ((bool \<times> (string \<times> string) list \<times> string list) \<times> world) outcome" where
  "detect_deadlock_heap limit order w =
     (case build_wait_for_graph_heap w of
        Inl e \<Rightarrow> Raise e
      | Inr (built, w1) \<Rightarrow>
          let graph = iterated order built;
              edges = concat (map (\<lambda>(u, vs). map (\<lambda>v. (u, v)) vs) graph)
          in (case find_cycle limit graph of
                Raise e \<Rightarrow> Raise e
              | Return cycle \<Rightarrow>
                  Return ((cycle \<noteq> None, edges, (case cycle of None \<Rightarrow> [] | Some c \<Rightarrow> c)),
                          w1)))"

text \<open>
  \<open>step\<close>: the two loops, the detector on the world they leave, and the marking of the
  processes of the cycle in the world the detector leaves.
\<close>

definition step :: "interpreter \<Rightarrow> Simulator \<Rightarrow> (Simulator \<times> bool) outcome" where
  "step py sim =
     (case sweeps sim of
        Inl e \<Rightarrow> Raise e
      | Inr sim1 \<Rightarrow>
          (case detect_deadlock_heap (depth py) (set_order py)
                  (processes sim1, resources sim1) of
             Raise e \<Rightarrow> Raise e
           | Return ((deadlock, edges, cycle), (ps, rs)) \<Rightarrow>
               if deadlock
               then Return (sim1\<lparr>processes := mark_cycle cycle ps, resources := rs\<rparr>, True)
               else Return (sim1\<lparr>processes := ps, resources := rs\<rparr>, False)))"

definition all_finished :: "Simulator \<Rightarrow> bool" where
  "all_finished sim = list_all (\<lambda>p. state p = FINISHED) (processes sim)"

text \<open>
  \<open>run\<close>: the loop \<open>for t in range(self.max_steps)\<close> with its two \<open>break\<close>s. The model
  returns the final simulator, the number of calls of \<open>step\<close> it made, and the last value
  of \<open>deadlock_found\<close>.
\<close>

fun run_loop :: "interpreter \<Rightarrow> nat \<Rightarrow> Simulator \<Rightarrow> (Simulator \<times> nat \<times> bool) outcome" where
  "run_loop py 0 sim = Return (sim, 0, False)"
| "run_loop py (Suc m) sim =
     (case step py sim of
        Raise e \<Rightarrow> Raise e
      | Return (sim', deadlock_found) \<Rightarrow>
          if deadlock_found then Return (sim', 1, True)
          else if all_finished sim' then Return (sim', 1, False)
          else
            (case run_loop py m sim' of
               Raise e \<Rightarrow> Raise e
             | Return (s, k, d) \<Rightarrow> Return (s, Suc k, d)))"

definition run :: "interpreter \<Rightarrow> Simulator \<Rightarrow> (Simulator \<times> nat \<times> bool) outcome" where
  "run py sim = run_loop py (nat (max_steps sim)) sim"

text \<open>
  \<open>k\<close> calls of \<open>step\<close> one after the other, with no test in between: the simulator after
  the \<open>k\<close>-th step and what that step returned.
\<close>

fun steps :: "interpreter \<Rightarrow> nat \<Rightarrow> Simulator \<Rightarrow> (Simulator \<times> bool) outcome" where
  "steps py 0 sim = Return (sim, False)"
| "steps py (Suc k) sim =
     (case step py sim of
        Raise e \<Rightarrow> Raise e
      | Return (sim', d) \<Rightarrow> if k = 0 then Return (sim', d) else steps py k sim')"

text \<open>
  An interpreter that still allows 1000 nested calls and iterates a set in the order of
  insertion, and one that has a single nested call left.
\<close>

definition roomy :: interpreter where
  "roomy = \<lparr>depth = 1000, set_order = (\<lambda>vs. vs)\<rparr>"

definition cramped :: interpreter where
  "cramped = \<lparr>depth = 1, set_order = (\<lambda>vs. vs)\<rparr>"

text \<open>The demonstration scenario as a simulator, in either mode.\<close>

definition demo_sim :: "string \<Rightarrow> int \<Rightarrow> Simulator" where
  "demo_sim m n =
     Simulator_init (fst demo_world)
       [\<lparr>rid = ''R1'', held_by = None\<rparr>, \<lparr>rid = ''R2'', held_by = None\<rparr>] m n"

text \<open>
  Every resource id that a process names (in its plan, among the resources it holds, as
  its pending request) is a key of the resource dictionary. Otherwise
  \<open>self.resources[...]\<close> raises \<open>KeyError\<close> in the lock manager or in the detector.
\<close>

definition registered :: "Process list \<Rightarrow> (string \<rightharpoonup> Resource) \<Rightarrow> bool" where
  "registered ps rs =
     (\<forall>p \<in> set ps.
        (\<forall>r \<in> set (plan p). rs r \<noteq> None) \<and>
        (\<forall>r \<in> held_resources p. rs r \<noteq> None) \<and>
        (\<forall>r. current_request p = Some r \<longrightarrow> rs r \<noteq> None))"

text \<open>A simulator whose only process plans a resource that does not exist.\<close>

definition stray_sim :: Simulator where
  "stray_sim =
     Simulator_init
       [\<lparr>pid = ''P1'', plan = [''R9''], held_resources = {},
         current_request = None, state = RUNNING, waiting_steps = 0\<rparr>]
       [\<lparr>rid = ''R1'', held_by = None\<rparr>] ''naive'' 50"

text \<open>The simulator in the state where \<open>P1\<close> and \<open>P2\<close> wait for each other.\<close>

definition crossed_sim :: Simulator where
  "crossed_sim =
     \<lparr>processes = crossed_processes, resources = crossed_resources, mode = ''naive'',
      max_steps = 50\<rparr>"

section \<open>The workers (core/worker.py)\<close>

subsection \<open>The pseudo-random generator\<close>

text \<open>
  \<open>random.Random\<close> belongs to the standard library. A generator is modelled by the
  sequence of raw numbers it will produce: every call takes the first one and leaves the
  rest. \<open>randint(a, b)\<close> gives an integer of \<open>[a, b]\<close>, \<open>randrange(n)\<close> one of \<open>[0, n)\<close>, and
  both raise \<open>ValueError\<close> on an empty range; \<open>random()\<close> (\<open>random_float\<close>) gives a multiple of \<open>2^-53\<close> in
  \<open>[0, 1)\<close> and \<open>uniform(a, b)\<close> is \<open>a + (b - a) * random()\<close>. Floats are modelled as reals.
  A theorem about every sequence covers every generator.
\<close>

type_synonym rng = "nat \<Rightarrow> nat"

definition rng_next :: "rng \<Rightarrow> rng" where
  "rng_next g = (\<lambda>i. g (Suc i))"

definition randint :: "rng \<Rightarrow> int \<Rightarrow> int \<Rightarrow> error + (int \<times> rng)" where
  "randint g a b =
     (if b < a then Inl ValueError else Inr (a + int (g 0) mod (b - a + 1), rng_next g))"

definition randrange :: "rng \<Rightarrow> int \<Rightarrow> error + (int \<times> rng)" where
  "randrange g n = (if n \<le> 0 then Inl ValueError else Inr (int (g 0) mod n, rng_next g))"



subsection \<open>\<open>BankerWorker._build_request\<close>\<close>

text \<open>
  The loop over \<open>remaining\<close>, with the request built so far (\<open>req\<close>) and the generator as state,
  then the test \<open>all(value == 0 for value in request)\<close>. The index \<open>randrange\<close> returns is
  never negative; an index past the end would raise \<open>IndexError\<close>.
\<close>

fun request_loop :: "int list \<Rightarrow> int list \<Rightarrow> rng \<Rightarrow> error + (int list \<times> rng)" where
  "request_loop [] req g = Inr (req, g)"
| "request_loop (need # rest) req g =
     (if need \<le> 0 then request_loop rest (req @ [0]) g
      else
        (case randint g 1 need of
           Inl e \<Rightarrow> Inl e
         | Inr (v, g') \<Rightarrow> request_loop rest (req @ [v]) g'))"

definition build_request :: "int list \<Rightarrow> rng \<Rightarrow> error + (int list \<times> rng)" where
  "build_request remaining g =
     (case request_loop remaining [] g of
        Inl e \<Rightarrow> Inl e
      | Inr (req, g1) \<Rightarrow>
          if list_all (\<lambda>value. value = 0) req then
            (case randrange g1 (int (length remaining)) of
               Inl e \<Rightarrow> Inl e
             | Inr (idx, g2) \<Rightarrow>
                 if nat idx < length req then Inr (req[nat idx := 1], g2)
                 else Inl IndexError)
          else Inr (req, g1))"

text \<open>The bound of the specification: a request of the same length, within the need.\<close>

definition within_remaining :: "int list \<Rightarrow> int list \<Rightarrow> bool" where
  "within_remaining remaining req =
     (length req = length remaining \<and>
      (\<forall>r < length remaining. 0 \<le> req ! r \<and> req ! r \<le> remaining ! r))"

text \<open>Two generators to instantiate the theorems with.\<close>

definition zero_rng :: rng where
  "zero_rng = (\<lambda>i. 0)"

definition count_rng :: rng where
  "count_rng = (\<lambda>i. 7 * i + 3)"

subsection \<open>The environment of a worker\<close>











subsection \<open>\<open>Worker\<close>: the metrics of a worker\<close>










subsection \<open>\<open>NaiveWorker.run\<close>\<close>



subsection \<open>\<open>RetryWorker\<close>\<close>







subsection \<open>What a run leaves on the metrics queue\<close>


subsection \<open>Workers and environments to instantiate the theorems with\<close>









section \<open>Next-request selection\<close>

lemma hd_sort_Min:
  fixes xs :: "'a::linorder list"
  assumes "xs \<noteq> []"
  shows "hd (sort xs) = Min (set xs)"
proof -
  have ne: "sort xs \<noteq> []" using assms by (metis length_sort length_0_conv)
  then obtain y ys where s: "sort xs = y # ys" by (cases "sort xs") auto
  have srt: "sorted (y # ys)" using sorted_sort s by metis
  have st: "set (y # ys) = set xs" using set_sort s by metis
  have "Min (set (y # ys)) = y"
  proof (rule Min_eqI)
    show "finite (set (y # ys))" by simp
    show "\<And>z. z \<in> set (y # ys) \<Longrightarrow> y \<le> z" using srt by auto
    show "y \<in> set (y # ys)" by simp
  qed
  then show ?thesis using s st by simp
qed

lemma find_first_unheld:
  "find (\<lambda>r. r \<notin> H) xs = Some r \<longleftrightarrow>
     (\<exists>i < length xs. xs ! i = r \<and> r \<notin> H \<and> (\<forall>j < i. xs ! j \<in> H))"
  by (auto simp: find_Some_iff)

text \<open>
  C5. For a RUNNING process with an unheld plan resource, the ordered mode returns the
  lexicographically least unheld plan resource and the naive mode the first unheld
  resource in plan order; a process whose plan is fully held, or that is BLOCKED,
  DEADLOCKED or FINISHED, gets \<open>None\<close> in either mode.
\<close>

theorem next_request_selection:
  "(state p = RUNNING \<and> unheld p \<noteq> {} \<longrightarrow>
      next_request p True = Some (Min (unheld p)) \<and>
      (\<exists>r. next_request p False = Some r \<and> first_unheld p r)) \<and>
   (unheld p = {} \<or> state p \<noteq> RUNNING \<longrightarrow> next_request p m = None)"
proof -
  let ?rem = "filter (\<lambda>r. r \<notin> held_resources p) (plan p)"
  have set_rem: "set ?rem = unheld p" by (auto simp: unheld_def)
  have a: "next_request p True = Some (Min (unheld p))"
    and b: "\<exists>r. next_request p False = Some r \<and> first_unheld p r"
    if run: "state p = RUNNING" and ne: "unheld p \<noteq> {}"
  proof -
    have rem: "?rem \<noteq> []" using ne set_rem by (metis set_empty)
    show "next_request p True = Some (Min (unheld p))"
      using run rem hd_sort_Min[OF rem] set_rem by (simp add: next_request_def)
    obtain x where x: "x \<in> set (plan p)" "x \<notin> held_resources p"
      using ne by (auto simp: unheld_def)
    then have "find (\<lambda>r. r \<notin> held_resources p) (plan p) \<noteq> None"
      by (auto simp: find_None_iff)
    then obtain r where r: "find (\<lambda>r. r \<notin> held_resources p) (plan p) = Some r" by auto
    then have "first_unheld p r"
      unfolding first_unheld_def using find_first_unheld[of "held_resources p" "plan p" r] by simp
    moreover have "next_request p False = Some r"
      using run rem r by (simp add: next_request_def)
    ultimately show "\<exists>r. next_request p False = Some r \<and> first_unheld p r" by blast
  qed
  have c: "next_request p m = None" if "unheld p = {} \<or> state p \<noteq> RUNNING"
  proof (cases "state p = RUNNING")
    case True
    then have "unheld p = {}" using that by simp
    then have "?rem = []" using set_rem by (metis set_empty)
    then show ?thesis by (simp add: next_request_def)
  next
    case False
    then show ?thesis by (cases "state p") (simp_all add: next_request_def)
  qed
  show ?thesis using a b c by blast
qed

theorem next_request_selection_witness:
  "state demo_P2 = RUNNING \<and> unheld demo_P2 \<noteq> {} \<and>
   next_request demo_P2 True = Some ''R1'' \<and> next_request demo_P2 False = Some ''R2'' \<and>
   Min (unheld demo_P2) = ''R1'' \<and> first_unheld demo_P2 ''R2'' \<and>
   next_request (demo_P2\<lparr>state := BLOCKED\<rparr>) True = None"
proof -
  have s: "state demo_P2 = RUNNING" by (simp add: demo_P2_def)
  have u: "unheld demo_P2 = {''R1'', ''R2''}" by (auto simp: unheld_def demo_P2_def)
  have ne: "unheld demo_P2 \<noteq> {}" using u by simp
  have t: "next_request demo_P2 True = Some ''R1''" by (simp add: next_request_def demo_P2_def)
  have f: "next_request demo_P2 False = Some ''R2''" by (simp add: next_request_def demo_P2_def)
  from next_request_selection[of demo_P2 True] s ne
  have 1: "next_request demo_P2 True = Some (Min (unheld demo_P2))"
    and 2: "\<exists>r. next_request demo_P2 False = Some r \<and> first_unheld demo_P2 r" by blast+
  have m: "Min (unheld demo_P2) = ''R1''" using 1 t by simp
  have fu: "first_unheld demo_P2 ''R2''" using 2 f by auto
  have n: "next_request (demo_P2\<lparr>state := BLOCKED\<rparr>) True = None"
    using next_request_selection[of "demo_P2\<lparr>state := BLOCKED\<rparr>" True] by simp
  show ?thesis using s ne t f m fu n by simp
qed

section \<open>Wait-for graph construction\<close>

lemma edge_graph_add: "edge (graph_add g p q) u v \<longleftrightarrow> edge g u v \<or> (u = p \<and> v = q)"
  by (induction g p q rule: graph_add.induct) (auto simp: edge_def graph_get_def)

lemma build_loop_edges:
  "build_loop ps rs g = Inr g' \<Longrightarrow> q \<noteq> [] \<Longrightarrow>
     edge g' p q \<longleftrightarrow> edge g p q \<or> code_edge ps rs p q"
proof (induction ps arbitrary: g)
  case Nil
  then show ?case by (simp add: code_edge_def)
next
  case (Cons a ps)
  then show ?case
    by (auto simp: code_edge_def edge_graph_add split: if_splits option.splits)
qed

lemma build_loop_no_self:
  "build_loop ps rs g = Inr g' \<Longrightarrow> \<forall>p. \<not> edge g p p \<Longrightarrow> \<not> edge g' p p"
proof (induction ps arbitrary: g)
  case Nil
  then show ?case by simp
next
  case (Cons a ps)
  then show ?case
    by (auto simp: edge_graph_add split: if_splits option.splits)
qed

text \<open>
  C3, as the code has it. When \<open>build_wait_for_graph\<close> returns a graph, then for every
  non-empty \<open>q\<close> the graph has the edge \<open>p \<rightarrow> q\<close> exactly when a process with pid \<open>p\<close> is
  BLOCKED with a pending non-empty request \<open>r\<close> whose resource is held by \<open>q\<close>, \<open>q \<noteq> p\<close>;
  and the graph has no self-loop.
\<close>

theorem build_wait_for_graph_edges:
  "build_wait_for_graph ps rs = Inr g \<longrightarrow>
     (q \<noteq> [] \<longrightarrow> (edge g p q \<longleftrightarrow> code_edge ps rs p q)) \<and> \<not> edge g p p"
proof
  assume b: "build_wait_for_graph ps rs = Inr g"
  have e: "\<And>u v. \<not> edge [] u v" by (simp add: edge_def graph_get_def)
  have "q \<noteq> [] \<longrightarrow> (edge g p q \<longleftrightarrow> code_edge ps rs p q)"
    using build_loop_edges[of ps rs "[]" g q p] b e by (simp add: build_wait_for_graph_def)
  moreover have "\<not> edge g p p"
    using build_loop_no_self[of ps rs "[]" g p] b e by (simp add: build_wait_for_graph_def)
  ultimately show "(q \<noteq> [] \<longrightarrow> (edge g p q \<longleftrightarrow> code_edge ps rs p q)) \<and> \<not> edge g p p"
    by blast
qed

lemma crossed_build: "build_wait_for_graph crossed_processes crossed_resources = Inr crossed_graph"
  by (simp add: build_wait_for_graph_def crossed_processes_def crossed_resources_def
      crossed_graph_def)

theorem build_wait_for_graph_edges_witness:
  "build_wait_for_graph crossed_processes crossed_resources = Inr crossed_graph \<and>
   edge crossed_graph ''P1'' ''P2'' \<and> code_edge crossed_processes crossed_resources ''P1'' ''P2'' \<and>
   \<not> edge crossed_graph ''P1'' ''P1''"
proof -
  have e: "edge crossed_graph ''P1'' ''P2''"
    by (simp add: edge_def graph_get_def crossed_graph_def)
  have n: "''P2'' \<noteq> ([] :: string)" by simp
  from build_wait_for_graph_edges[of crossed_processes crossed_resources crossed_graph
      "''P2''" "''P1''"] crossed_build n e
  have "code_edge crossed_processes crossed_resources ''P1'' ''P2''"
    and "\<not> edge crossed_graph ''P1'' ''P1''" by blast+
  then show ?thesis using crossed_build e by simp
qed

text \<open>
  C3, as it is written, fails on a request for the resource named by the empty string: the
  process is BLOCKED on it, the resource is held by \<open>P2\<close>, and the graph has no edge.
\<close>

theorem build_wait_for_graph_edges_counterexample:
  "build_wait_for_graph blocked_on_empty empty_id_resources = Inr [] \<and>
   spec_edge blocked_on_empty empty_id_resources ''P1'' ''P2'' \<and> \<not> edge [] ''P1'' ''P2''"
  by (simp add: build_wait_for_graph_def blocked_on_empty_def empty_id_resources_def
      spec_edge_def edge_def graph_get_def)

section \<open>Cycle discovery\<close>

subsection \<open>Soundness\<close>

lemma index_of_Some: "x \<in> set xs \<Longrightarrow> \<exists>i. index_of xs x = Some i \<and> i < length xs \<and> xs ! i = x"
  by (induction xs) auto

lemma index_of_nth: "index_of xs x = Some i \<Longrightarrow> i < length xs \<and> xs ! i = x"
  by (induction xs arbitrary: i) (auto split: if_splits)

lemma back_edge_cycle:
  assumes "successively (edge g) p" and "index_of p v = Some idx" and "edge g (last p) v"
  shows "valid_cycle g (drop idx p @ [v])"
proof -
  from index_of_nth[OF assms(2)] have i: "idx < length p" "p ! idx = v" by auto
  then have ne: "drop idx p \<noteq> []" by simp
  have hd: "hd (drop idx p) = v" using i by (simp add: hd_drop_conv_nth)
  have la: "last (drop idx p) = last p" using i by simp
  have "successively (edge g) (drop idx p)"
    using assms(1) by (metis append_take_drop_id successively_append_iff)
  then have "successively (edge g) (drop idx p @ [v])"
    using ne la assms(3) by (simp add: successively_append_iff)
  then show ?thesis
    unfolding valid_cycle_def using ne hd by (simp add: successively_conv_nth)
qed

lemma dfs_inv_push:
  assumes "dfs_inv g st" "path st = [] \<or> edge g (last (path st)) node"
  shows "dfs_inv g (push node st)"
  using assms by (auto simp: dfs_inv_def push_def successively_append_iff)

lemma dfs_post_pop:
  assumes inv: "dfs_inv g st" and nv: "node \<notin> visited st"
    and post: "dfs_post g (push node st) r"
  shows "dfs_post g st
     (case r of
        Raise e \<Rightarrow> Raise e
      | Return (Some c, st') \<Rightarrow> Return (Some c, st')
      | Return (None, st') \<Rightarrow>
          if node \<notin> stack st' then Raise KeyError
          else if path st' = [] then Raise IndexError
          else Return (None, st'\<lparr>stack := stack st' - {node}, path := butlast (path st')\<rparr>))"
proof (cases r)
  case (Raise e)
  then show ?thesis using post by simp
next
  case (Return x)
  obtain found st' where x: "x = (found, st')" by (cases x)
  show ?thesis
  proof (cases found)
    case (Some c)
    then show ?thesis using post Return x by simp
  next
    case None
    from post Return x None
    have p: "stack st' = insert node (stack st)" "path st' = path st @ [node]"
      "insert node (visited st) \<subseteq> visited st'" "dfs_inv g st'"
      by (simp_all add: push_def)
    have ns: "node \<notin> stack st" using inv nv by (auto simp: dfs_inv_def)
    have "dfs_inv g (st'\<lparr>stack := stack st' - {node}, path := butlast (path st')\<rparr>)"
      using inv p ns by (auto simp: dfs_inv_def)
    then show ?thesis using Return x None p ns by auto
  qed
qed

lemma dfs_post_trans:
  assumes "dfs_post g st' r" "stack st' = stack st" "path st' = path st"
    "visited st \<subseteq> visited st'"
  shows "dfs_post g st r"
proof (cases r)
  case (Return x)
  obtain found st'' where x: "x = (found, st'')" by (cases x)
  show ?thesis using assms Return x by (cases found) auto
qed (use assms in auto)

lemma dfs_sound:
  shows "dfs_inv g st \<Longrightarrow> node \<notin> visited st \<Longrightarrow>
           path st = [] \<or> edge g (last (path st)) node \<Longrightarrow> dfs_post g st (dfs n g node st)"
    and "dfs_inv g st \<Longrightarrow> path st \<noteq> [] \<Longrightarrow> \<forall>v \<in> set vs. edge g (last (path st)) v \<Longrightarrow>
           dfs_post g st (dfs_neighbors n g vs st)"
proof (induction n g node st and n g vs st rule: dfs_dfs_neighbors.induct)
  case (1 g node st)
  then show ?case by simp
next
  case (2 n g node st)
  have i1: "dfs_inv g (push node st)" using 2 dfs_inv_push by blast
  have "dfs_post g (push node st) (dfs_neighbors n g (graph_get g node) (push node st))"
    using "2.IH"[OF i1] by (simp add: push_def edge_def)
  from dfs_post_pop[OF "2.prems"(1) "2.prems"(2) this]
  show ?case by simp
next
  case (3 n g st)
  then show ?case by simp
next
  case (4 n g neighbor rest st)
  have e: "edge g (last (path st)) neighbor" and r: "\<forall>v \<in> set rest. edge g (last (path st)) v"
    using "4.prems"(3) by auto
  show ?case
  proof (cases "neighbor \<notin> visited st")
    case True
    have p: "dfs_post g st (dfs n g neighbor st)"
      using "4.IH"(1)[OF True "4.prems"(1) True] e by blast
    show ?thesis
    proof (cases "dfs n g neighbor st")
      case (Raise x)
      then show ?thesis using p True by simp
    next
      case (Return x)
      obtain found st' where x: "x = (found, st')" by (cases x)
      show ?thesis
      proof (cases found)
        case (Some c)
        then have "valid_cycle g c" using p Return x by simp
        then have "c \<noteq> []" by (simp add: valid_cycle_def)
        then show ?thesis using True Return x Some p by simp
      next
        case None
        from p Return x None
        have q: "stack st' = stack st" "path st' = path st" "visited st \<subseteq> visited st'"
          "dfs_inv g st'" by simp_all
        have "dfs_post g st' (dfs_neighbors n g rest st')"
          using "4.IH"(2)[OF True Return x[symmetric] _ q(4)] None q(2) "4.prems"(2) r by simp
        from dfs_post_trans[OF this q(1) q(2) q(3)]
        show ?thesis using True Return x None by simp
      qed
    qed
  next
    case False
    show ?thesis
    proof (cases "neighbor \<in> stack st")
      case True
      then have "neighbor \<in> set (path st)" using "4.prems"(1) by (simp add: dfs_inv_def)
      from index_of_Some[OF this] obtain idx where idx: "index_of (path st) neighbor = Some idx"
        by blast
      have "successively (edge g) (path st)" using "4.prems"(1) by (simp add: dfs_inv_def)
      from back_edge_cycle[OF this idx e]
      show ?thesis using False True idx by simp
    next
      case nst: False
      show ?thesis using "4.IH"(3)[OF _ nst "4.prems"(1) "4.prems"(2)] False nst r by simp
    qed
  qed
qed

lemma dfs_roots_sound:
  "dfs_inv g st \<Longrightarrow> path st = [] \<Longrightarrow>
     (\<forall>e. dfs_roots n g ks st = Raise e \<longrightarrow> e = RecursionError) \<and>
     (\<forall>c. dfs_roots n g ks st = Return (Some c) \<longrightarrow> valid_cycle g c)"
proof (induction ks arbitrary: st)
  case Nil
  then show ?case by simp
next
  case (Cons k ks)
  show ?case
  proof (cases "k \<notin> visited st")
    case True
    have p: "dfs_post g st (dfs n g k st)"
      using dfs_sound(1)[OF Cons.prems(1) True] Cons.prems(2) by blast
    show ?thesis
    proof (cases "dfs n g k st")
      case (Raise e)
      then show ?thesis using p True by simp
    next
      case (Return x)
      obtain found st1 where fs: "x = (found, st1)" by (cases x)
      show ?thesis
      proof (cases found)
        case None
        then have "dfs_inv g st1" "path st1 = []" using p Return fs Cons.prems(2) by simp_all
        from Cons.IH[OF this] show ?thesis using True Return fs None by simp
      next
        case (Some c)
        then have v: "valid_cycle g c" using p Return fs by simp
        then have "c \<noteq> []" by (simp add: valid_cycle_def)
        then show ?thesis using True Return fs Some v by simp
      qed
    qed
  next
    case False
    then show ?thesis using Cons.IH[OF Cons.prems] by simp
  qed
qed

lemma init_inv: "dfs_inv g \<lparr>visited = {}, stack = {}, path = []\<rparr>"
  by (simp add: dfs_inv_def)

lemma find_cycle_no_raise: "find_cycle limit g = Raise e \<Longrightarrow> e = RecursionError"
  using dfs_roots_sound[OF init_inv, where g = g and n = limit and ks = "map fst g"]
  unfolding find_cycle_def by simp

text \<open>
  C1. A cycle returned by the search starts and ends with the same node, and each of its
  consecutive pairs is an edge of the graph, whatever recursion depth the interpreter
  allows.
\<close>

theorem find_cycle_sound:
  assumes "find_cycle limit g = Return (Some c)"
  shows "c \<noteq> [] \<and> hd c = last c \<and> (\<forall>i. Suc i < length c \<longrightarrow> edge g (c ! i) (c ! Suc i))"
proof -
  have "valid_cycle g c"
    using dfs_roots_sound[OF init_inv, where g = g and n = limit
        and ks = "map fst g"] assms
    unfolding find_cycle_def by simp
  then show ?thesis by (simp add: valid_cycle_def)
qed

lemma find_cycle_S6: "find_cycle 1000 graph_S6 = Return (Some [''A'', ''B'', ''C'', ''A''])"
proof -
  have "\<And>n. find_cycle (Suc (Suc (Suc n))) graph_S6 = Return (Some [''A'', ''B'', ''C'', ''A''])"
    by (simp add: find_cycle_def graph_S6_def graph_get_def push_def)
  from this[of 997] show ?thesis by simp
qed

theorem find_cycle_sound_witness:
  "find_cycle 1000 graph_S6 = Return (Some [''A'', ''B'', ''C'', ''A'']) \<and>
   edge graph_S6 ''A'' ''B'' \<and> edge graph_S6 ''B'' ''C'' \<and> edge graph_S6 ''C'' ''A''"
proof -
  from find_cycle_sound[OF find_cycle_S6]
  have e: "\<forall>i. Suc i < 4 \<longrightarrow>
             edge graph_S6 ([''A'', ''B'', ''C'', ''A''] ! i) ([''A'', ''B'', ''C'', ''A''] ! Suc i)"
    by simp
  have "edge graph_S6 ''A'' ''B''" using e[rule_format, of 0] by simp
  moreover have "edge graph_S6 ''B'' ''C''" using e[rule_format, of 1] by simp
  moreover have "edge graph_S6 ''C'' ''A''" using e[rule_format, of 2] by simp
  ultimately show ?thesis using find_cycle_S6 by simp
qed

subsection \<open>The search returns when the graph has fewer keys than the depth allowed\<close>

lemma dfs_visited_mono:
  shows "dfs n g node st = Return (f, st') \<Longrightarrow> visited st \<subseteq> visited st' \<and> node \<in> visited st'"
    and "dfs_neighbors n g vs st = Return (f, st') \<Longrightarrow> visited st \<subseteq> visited st'"
proof (induction n g node st and n g vs st arbitrary: f st' and f st' rule: dfs_dfs_neighbors.induct)
  case (1 g node st)
  then show ?case by simp
next
  case (2 n g node st)
  then show ?case
    by (auto simp: push_def split: outcome.splits option.splits if_splits prod.splits)
next
  case (3 n g st)
  then show ?case by simp
next
  case (4 n g neighbor rest st)
  show ?case
  proof (cases "neighbor \<notin> visited st")
    case True
    then obtain x where x: "dfs n g neighbor st = Return x"
      using "4.prems" by (auto split: outcome.splits)
    obtain found st1 where fs: "x = (found, st1)" by (cases x)
    have m: "visited st \<subseteq> visited st1" using "4.IH"(1)[OF True] x fs by simp
    show ?thesis
    proof (cases "found \<noteq> None \<and> found \<noteq> Some []")
      case t: True
      then show ?thesis using "4.prems" True x fs m by simp
    next
      case f: False
      then have "dfs_neighbors n g rest st1 = Return (f, st')"
        using "4.prems" True x fs by (cases found) auto
      from "4.IH"(2)[OF True x fs[symmetric] f this] m show ?thesis by blast
    qed
  next
    case False
    then show ?thesis using "4.prems" "4.IH"(3)
      by (auto split: if_splits option.splits)
  qed
qed

lemma dfs_enough_depth:
  shows "card (set (map fst g) - visited st) < n \<Longrightarrow> node \<notin> visited st \<Longrightarrow>
           dfs n g node st \<noteq> Raise RecursionError"
    and "vs = [] \<or> card (set (map fst g) - visited st) < n \<Longrightarrow>
           dfs_neighbors n g vs st \<noteq> Raise RecursionError"
proof (induction n g node st and n g vs st rule: dfs_dfs_neighbors.induct)
  case (1 g node st)
  then show ?case by simp
next
  case (2 n g node st)
  let ?K = "set (map fst g)"
  have "graph_get g node = [] \<or> card (?K - visited (push node st)) < n"
  proof (cases "node \<in> ?K")
    case True
    then have "node \<in> ?K - visited st" using "2.prems"(2) by simp
    then have "card (?K - insert node (visited st)) < card (?K - visited st)"
      by (metis Diff_insert List.finite_set card_Diff1_less finite_Diff)
    then show ?thesis using "2.prems"(1) by (simp add: push_def)
  next
    case False
    then have "map_of g node = None" by (simp add: map_of_eq_None_iff)
    then show ?thesis by (simp add: graph_get_def)
  qed
  then have "dfs_neighbors n g (graph_get g node) (push node st) \<noteq> Raise RecursionError"
    using "2.IH" by simp
  then show ?case by (auto split: outcome.splits option.splits prod.splits)
next
  case (3 n g st)
  then show ?case by simp
next
  case (4 n g neighbor rest st)
  let ?K = "set (map fst g)"
  have c: "card (?K - visited st) < n" using "4.prems" by simp
  show ?case
  proof (cases "neighbor \<notin> visited st")
    case True
    have nf: "dfs n g neighbor st \<noteq> Raise RecursionError" using "4.IH"(1)[OF True c True] .
    show ?thesis
    proof (cases "dfs n g neighbor st")
      case (Raise e)
      then show ?thesis using True nf by simp
    next
      case (Return x)
      obtain found st1 where fs: "x = (found, st1)" by (cases x)
      have "visited st \<subseteq> visited st1" using dfs_visited_mono(1) Return fs by blast
      then have "card (?K - visited st1) \<le> card (?K - visited st)"
        by (meson Diff_mono List.finite_set card_mono finite_Diff order_refl)
      then have c1: "card (?K - visited st1) < n" using c by simp
      show ?thesis
      proof (cases "found \<noteq> None \<and> found \<noteq> Some []")
        case t: True
        then show ?thesis using True Return fs by simp
      next
        case f: False
        have "dfs_neighbors n g rest st1 \<noteq> Raise RecursionError"
          using "4.IH"(2)[OF True Return fs[symmetric] f] c1 by simp
        then show ?thesis using True Return fs f by (cases found) auto
      qed
    qed
  next
    case False
    then show ?thesis using "4.IH"(3) c
      by (auto split: option.splits)
  qed
qed

lemma dfs_roots_enough_depth:
  "card (set (map fst g) - visited st) < n \<Longrightarrow> dfs_roots n g ks st \<noteq> Raise RecursionError"
proof (induction ks arbitrary: st)
  case Nil
  then show ?case by simp
next
  case (Cons k ks)
  let ?K = "set (map fst g)"
  show ?case
  proof (cases "k \<notin> visited st")
    case True
    have nf: "dfs n g k st \<noteq> Raise RecursionError"
      using dfs_enough_depth(1)[OF Cons.prems True] .
    show ?thesis
    proof (cases "dfs n g k st")
      case (Raise e)
      then show ?thesis using True nf by simp
    next
      case (Return x)
      obtain found st1 where fs: "x = (found, st1)" by (cases x)
      have "visited st \<subseteq> visited st1" using dfs_visited_mono(1) Return fs by blast
      then have "card (?K - visited st1) \<le> card (?K - visited st)"
        by (meson Diff_mono List.finite_set card_mono finite_Diff order_refl)
      then have "card (?K - visited st1) < n" using Cons.prems by simp
      from Cons.IH[OF this]
      show ?thesis using True Return fs by simp
    qed
  next
    case False
    then show ?thesis using Cons.IH[OF Cons.prems] by simp
  qed
qed

lemma edge_nodes:
  assumes "edge g u v"
  shows "u \<in> set (map fst g)" and "v \<in> set (node_list g)"
proof -
  from assms obtain vs where m: "map_of g u = Some vs" and v: "v \<in> set vs"
    by (cases "map_of g u") (auto simp: edge_def graph_get_def)
  then have "(u, vs) \<in> set g" by (simp add: map_of_SomeD)
  then show "u \<in> set (map fst g)" and "v \<in> set (node_list g)"
    using v by (force simp: node_list_def)+
qed

lemma find_cycle_returns:
  assumes "length g < limit"
  shows "\<exists>r. find_cycle limit g = Return r"
proof -
  have "card (set (map fst g)) \<le> length g" by (metis card_length length_map)
  then have "card (set (map fst g) - visited \<lparr>visited = {}, stack = {}, path = []\<rparr>) < limit"
    using assms by simp
  from dfs_roots_enough_depth[OF this, of "map fst g"]
  have "find_cycle limit g \<noteq> Raise RecursionError" unfolding find_cycle_def .
  then show ?thesis using find_cycle_no_raise[of limit g] by (cases "find_cycle limit g") auto
qed

subsection \<open>Completeness\<close>

lemma closed_rtrancl:
  assumes "\<forall>u \<in> B. \<forall>v. edge g u v \<longrightarrow> v \<in> B" "(v, w) \<in> (edges_of g)\<^sup>*" "v \<in> B"
  shows "w \<in> B"
  using assms(2,3,1)
proof (induction rule: rtrancl_induct)
  case base
  then show ?case by simp
next
  case (step y z)
  then have "y \<in> B" by simp
  moreover have "edge g y z" using step.hyps(2) by (simp add: edges_of_def)
  ultimately show ?case using step.prems(2) by blast
qed

lemma closed_no_cycle:
  assumes "\<forall>u \<in> B. \<forall>v. edge g u v \<longrightarrow> v \<in> B" "\<forall>v. edge g x v \<longrightarrow> v \<in> B" "x \<notin> B"
  shows "(x, x) \<notin> (edges_of g)\<^sup>+"
proof
  assume "(x, x) \<in> (edges_of g)\<^sup>+"
  then obtain v where v: "(x, v) \<in> edges_of g" "(v, x) \<in> (edges_of g)\<^sup>*"
    by (meson tranclD)
  then have "v \<in> B" using assms(2) by (simp add: edges_of_def)
  then have "x \<in> B" using closed_rtrancl[OF assms(1) v(2)] by simp
  then show False using assms(3) by simp
qed

lemma dfs_black_pop:
  assumes b: "dfs_black g st2" and node: "node \<in> stack st2" "node \<in> visited st2"
    and succ: "set (graph_get g node) \<subseteq> visited st2 - stack st2"
  shows "dfs_black g (st2\<lparr>stack := stack st2 - {node}, path := p\<rparr>)"
proof -
  let ?B = "visited st2 - stack st2"
  have cl: "\<forall>u \<in> ?B. \<forall>v. edge g u v \<longrightarrow> v \<in> ?B" using b unfolding dfs_black_def by blast
  have sn: "\<forall>v. edge g node v \<longrightarrow> v \<in> ?B" using succ unfolding edge_def by blast
  have "node \<notin> ?B" using node by simp
  from closed_no_cycle[OF cl sn this] have nc: "(node, node) \<notin> (edges_of g)\<^sup>+" .
  show ?thesis
    unfolding dfs_black_def
  proof (intro ballI conjI allI impI)
    fix u v
    assume u: "u \<in> visited (st2\<lparr>stack := stack st2 - {node}, path := p\<rparr>) -
                   stack (st2\<lparr>stack := stack st2 - {node}, path := p\<rparr>)"
      and e: "edge g u v"
    have "u = node \<or> u \<in> ?B" using u by auto
    then have "v \<in> ?B" using e cl sn by blast
    then show "v \<in> visited (st2\<lparr>stack := stack st2 - {node}, path := p\<rparr>) -
                   stack (st2\<lparr>stack := stack st2 - {node}, path := p\<rparr>)"
      by simp
  next
    fix u
    assume u: "u \<in> visited (st2\<lparr>stack := stack st2 - {node}, path := p\<rparr>) -
                   stack (st2\<lparr>stack := stack st2 - {node}, path := p\<rparr>)"
    have "u = node \<or> u \<in> ?B" using u by auto
    then show "(u, u) \<notin> (edges_of g)\<^sup>+" using nc b unfolding dfs_black_def by blast
  qed
qed

lemma dfs_black_push:
  assumes "dfs_black g st" "node \<notin> visited st" "stack st \<subseteq> visited st"
  shows "dfs_black g (push node st)"
proof -
  have eq: "visited (push node st) - stack (push node st) = visited st - stack st"
    using assms(2,3) by (auto simp: push_def)
  show ?thesis unfolding dfs_black_def eq using assms(1)[unfolded dfs_black_def] .
qed

lemma dfs_complete:
  shows "dfs_inv g st \<Longrightarrow> dfs_black g st \<Longrightarrow> node \<notin> visited st \<Longrightarrow>
           path st = [] \<or> edge g (last (path st)) node \<Longrightarrow>
           dfs n g node st = Return (None, st') \<Longrightarrow> dfs_black g st'"
    and "dfs_inv g st \<Longrightarrow> dfs_black g st \<Longrightarrow> path st \<noteq> [] \<Longrightarrow>
           \<forall>v \<in> set vs. edge g (last (path st)) v \<Longrightarrow>
           dfs_neighbors n g vs st = Return (None, st') \<Longrightarrow>
           dfs_black g st' \<and> set vs \<subseteq> visited st' - stack st"
proof (induction n g node st and n g vs st arbitrary: st' and st' rule: dfs_dfs_neighbors.induct)
  case (1 g node st)
  then show ?case by simp
next
  case (2 n g node st)
  let ?st1 = "push node st"
  have i1: "dfs_inv g ?st1" using "2.prems"(1,4) dfs_inv_push by blast
  have sv0: "stack st \<subseteq> visited st" using "2.prems"(1) unfolding dfs_inv_def by blast
  have b1: "dfs_black g ?st1"
    using dfs_black_push[OF "2.prems"(2,3) sv0] .
  have e1: "path ?st1 \<noteq> []" "\<forall>v \<in> set (graph_get g node). edge g (last (path ?st1)) v"
    by (simp_all add: push_def edge_def)
  obtain st2 where r: "dfs_neighbors n g (graph_get g node) ?st1 = Return (None, st2)"
    and ns: "node \<in> stack st2" and pe: "path st2 \<noteq> []"
    and st': "st' = st2\<lparr>stack := stack st2 - {node}, path := butlast (path st2)\<rparr>"
    using "2.prems"(5)
    by (auto split: outcome.splits option.splits prod.splits if_splits)
  from "2.IH"[OF i1 b1 e1 r]
  have b2: "dfs_black g st2" and s2: "set (graph_get g node) \<subseteq> visited st2 - stack ?st1"
    by simp_all
  have "dfs_post g ?st1 (dfs_neighbors n g (graph_get g node) ?st1)"
    using dfs_sound(2)[OF i1 e1] .
  then have eq: "stack st2 = stack ?st1" using r by simp
  have nv: "node \<in> visited st2" using dfs_visited_mono(2)[OF r] by (auto simp: push_def)
  have "set (graph_get g node) \<subseteq> visited st2 - stack st2" using s2 eq by simp
  from dfs_black_pop[OF b2 ns nv this] show ?case using st' by simp
next
  case (3 n g st)
  then show ?case by simp
next
  case (4 n g neighbor rest st)
  have e: "edge g (last (path st)) neighbor" and r: "\<forall>v \<in> set rest. edge g (last (path st)) v"
    using "4.prems"(4) by auto
  have sv: "stack st \<subseteq> visited st" using "4.prems"(1) unfolding dfs_inv_def by blast
  show ?case
  proof (cases "neighbor \<notin> visited st")
    case True
    obtain x where x: "dfs n g neighbor st = Return x"
      using "4.prems"(5) True by (auto split: outcome.splits)
    obtain found st1 where fs: "x = (found, st1)" by (cases x)
    have p: "dfs_post g st (dfs n g neighbor st)"
      using dfs_sound(1)[OF "4.prems"(1) True] e by blast
    have fn: "found = None"
    proof (cases found)
      case (Some c)
      then have "valid_cycle g c" using p x fs by simp
      then have "c \<noteq> []" by (simp add: valid_cycle_def)
      then show ?thesis using "4.prems"(5) True x fs Some by simp
    qed simp
    have q: "stack st1 = stack st" "path st1 = path st" "visited st \<subseteq> visited st1"
      "dfs_inv g st1" using p x fs fn by simp_all
    have b1: "dfs_black g st1"
      using "4.IH"(1)[OF True "4.prems"(1,2) True _ x[unfolded fs fn]] e by blast
    have nb: "neighbor \<in> visited st1" using dfs_visited_mono(1) x fs by blast
    have rest: "dfs_neighbors n g rest st1 = Return (None, st')"
      using "4.prems"(5) True x fs fn by simp
    have f: "\<not> (found \<noteq> None \<and> found \<noteq> Some [])" using fn by simp
    from "4.IH"(2)[OF True x fs[symmetric] f q(4) b1 _ _ rest] q(2) "4.prems"(3) r
    have res: "dfs_black g st'" "set rest \<subseteq> visited st' - stack st1" by simp_all
    have "visited st1 \<subseteq> visited st'" using dfs_visited_mono(2)[OF rest] .
    then have "neighbor \<in> visited st'" using nb by blast
    moreover have "neighbor \<notin> stack st" using True sv by blast
    moreover have "set rest \<subseteq> visited st' - stack st" using res(2) q(1) by simp
    ultimately have "set (neighbor # rest) \<subseteq> visited st' - stack st" by simp
    with res(1) show ?thesis by (rule conjI)
  next
    case False
    show ?thesis
    proof (cases "neighbor \<in> stack st")
      case True
      then show ?thesis using "4.prems"(5) False by (auto split: option.splits)
    next
      case nst: False
      have rest: "dfs_neighbors n g rest st = Return (None, st')"
        using "4.prems"(5) False nst by simp
      from "4.IH"(3)[OF _ nst "4.prems"(1,2,3) r rest] False
      have res: "dfs_black g st'" "set rest \<subseteq> visited st' - stack st" by simp_all
      have "visited st \<subseteq> visited st'" using dfs_visited_mono(2)[OF rest] .
      then have "set (neighbor # rest) \<subseteq> visited st' - stack st"
        using res(2) False nst by auto
      with res(1) show ?thesis by (rule conjI)
    qed
  qed
qed

lemma dfs_roots_complete:
  "dfs_inv g st \<Longrightarrow> dfs_black g st \<Longrightarrow> path st = [] \<Longrightarrow>
     \<exists>u \<in> set ks \<union> visited st. (u, u) \<in> (edges_of g)\<^sup>+ \<Longrightarrow>
     dfs_roots n g ks st \<noteq> Return None"
proof (induction ks arbitrary: st)
  case Nil
  have "stack st = {}" using Nil.prems(1,3) unfolding dfs_inv_def by simp
  then show ?case using Nil.prems(2,4) unfolding dfs_black_def by auto
next
  case (Cons k ks)
  show ?case
  proof (cases "k \<notin> visited st")
    case True
    have p: "dfs_post g st (dfs n g k st)"
      using dfs_sound(1)[OF Cons.prems(1) True] Cons.prems(3) by blast
    show ?thesis
    proof (cases "dfs n g k st")
      case (Raise e)
      then show ?thesis using True by simp
    next
      case (Return x)
      obtain found st1 where fs: "x = (found, st1)" by (cases x)
      show ?thesis
      proof (cases found)
        case None
        have r: "dfs n g k st = Return (None, st1)" using Return fs None by simp
        have q: "dfs_inv g st1" "path st1 = []" using p r Cons.prems(3) by simp_all
        have b: "dfs_black g st1"
          using dfs_complete(1)[OF Cons.prems(1,2) True _ r] Cons.prems(3) by blast
        have "visited st \<subseteq> visited st1" "k \<in> visited st1"
          using dfs_visited_mono(1)[OF r] by simp_all
        then have "\<exists>u \<in> set ks \<union> visited st1. (u, u) \<in> (edges_of g)\<^sup>+"
          using Cons.prems(4) by auto
        from Cons.IH[OF q(1) b q(2) this] show ?thesis using True r by simp
      next
        case (Some c)
        then have "valid_cycle g c" using p Return fs by simp
        then have "c \<noteq> []" by (simp add: valid_cycle_def)
        then show ?thesis using True Return fs Some by simp
      qed
    qed
  next
    case False
    then have "\<exists>u \<in> set ks \<union> visited st. (u, u) \<in> (edges_of g)\<^sup>+"
      using Cons.prems(4) by auto
    from Cons.IH[OF Cons.prems(1,2,3) this] show ?thesis using False by simp
  qed
qed

lemma init_black: "dfs_black g \<lparr>visited = {}, stack = {}, path = []\<rparr>"
  unfolding dfs_black_def by simp

lemma find_cycle_finds:
  assumes "has_cycle g" and "length g < limit"
  shows "\<exists>c. find_cycle limit g = Return (Some c) \<and> valid_cycle g c"
proof -
  from assms(1) obtain u where u: "(u, u) \<in> (edges_of g)\<^sup>+" by (auto simp: has_cycle_def)
  then obtain v where "(u, v) \<in> edges_of g" by (meson tranclD)
  then have "u \<in> set (map fst g)" using edge_nodes(1) by (simp add: edges_of_def)
  then have "\<exists>u \<in> set (map fst g) \<union> visited \<lparr>visited = {}, stack = {}, path = []\<rparr>.
               (u, u) \<in> (edges_of g)\<^sup>+" using u by blast
  from dfs_roots_complete[OF init_inv init_black _ this]
  have "find_cycle limit g \<noteq> Return None"
    unfolding find_cycle_def by simp
  then obtain c where c: "find_cycle limit g = Return (Some c)"
    using find_cycle_returns[OF assms(2)] by (metis option.exhaust)
  have "valid_cycle g c"
    using dfs_roots_sound[OF init_inv, where g = g and n = limit and ks = "map fst g"] c
    unfolding find_cycle_def by simp
  then show ?thesis using c by blast
qed

subsection \<open>The order of iteration does not change the edges\<close>

lemma map_of_iterated: "map_of (iterated order g) u = map_option order (map_of g u)"
  by (induction g) (auto simp: iterated_def)

lemma edge_iterated: "iterates order \<Longrightarrow> edge (iterated order g) u v = edge g u v"
  by (cases "map_of g u") (simp_all add: edge_def graph_get_def map_of_iterated iterates_def)

lemma has_cycle_iterated:
  assumes "iterates order"
  shows "has_cycle (iterated order g) = has_cycle g"
proof -
  have "edges_of (iterated order g) = edges_of g"
    using edge_iterated[OF assms] by (simp add: edges_of_def)
  then show ?thesis by (simp add: has_cycle_def)
qed

lemma valid_cycle_iterated: "iterates order \<Longrightarrow> valid_cycle (iterated order g) c = valid_cycle g c"
  by (simp add: valid_cycle_def edge_iterated)

lemma length_iterated: "length (iterated order g) = length g"
  by (simp add: iterated_def)

text \<open>The graph that is built has at most one key for every process.\<close>

lemma graph_add_length: "length (graph_add g p q) \<le> Suc (length g)"
  by (induction g p q rule: graph_add.induct) auto

lemma build_loop_length:
  "build_loop ps rs g = Inr g' \<Longrightarrow> length g' \<le> length g + length ps"
proof (induction ps arbitrary: g)
  case Nil
  then show ?case by simp
next
  case (Cons p ps)
  show ?case
  proof (cases "\<exists>g1. build_loop ps rs g1 = Inr g' \<and> length g1 \<le> Suc (length g)")
    case True
    then obtain g1 where g1: "build_loop ps rs g1 = Inr g'" "length g1 \<le> Suc (length g)" by blast
    from Cons.IH[OF g1(1)] g1(2) show ?thesis by simp
  next
    case False
    have "\<exists>g1. build_loop ps rs g1 = Inr g' \<and> length g1 \<le> Suc (length g)"
      using Cons.prems graph_add_length[of g "pid p"]
      by (auto split: if_splits option.splits intro: le_SucI)
    then show ?thesis using False by simp
  qed
qed

lemma build_wait_for_graph_length:
  "build_wait_for_graph ps rs = Inr g \<Longrightarrow> length g \<le> length ps"
  using build_loop_length[of ps rs "[]" g] by (simp add: build_wait_for_graph_def)

subsection \<open>A ring longer than the depth allowed\<close>

lemma ring_node_inj: "ring_node i = ring_node j \<Longrightarrow> i = j"
proof -
  assume "ring_node i = ring_node j"
  then have "length (ring_node i) = length (ring_node j)" by simp
  then show ?thesis by (simp add: ring_node_def)
qed

lemma map_of_keyed:
  "(\<And>i j. f i = f j \<Longrightarrow> i = j) \<Longrightarrow> i \<in> set xs \<Longrightarrow>
     map_of (map (\<lambda>i. (f i, h i)) xs) (f i) = Some (h i)"
  by (induction xs) auto

lemma ring_get: "i < n \<Longrightarrow> graph_get (ring n) (ring_node i) = [ring_node (Suc i mod n)]"
  using map_of_keyed[of ring_node i "[0..<n]" "\<lambda>i. [ring_node (Suc i mod n)]"] ring_node_inj
  by (simp add: graph_get_def ring_def)

lemma ring_descend:
  "i + d < n \<Longrightarrow>
     dfs d (ring n) (ring_node i)
       \<lparr>visited = ring_node ` {..<i}, stack = ring_node ` {..<i}, path = map ring_node [0..<i]\<rparr> =
     Raise RecursionError"
proof (induction d arbitrary: i)
  case 0
  then show ?case by simp
next
  case (Suc d)
  let ?st = "\<lparr>visited = ring_node ` {..<i}, stack = ring_node ` {..<i}, path = map ring_node [0..<i]\<rparr>"
  let ?st1 = "\<lparr>visited = ring_node ` {..<Suc i}, stack = ring_node ` {..<Suc i},
               path = map ring_node [0..<Suc i]\<rparr>"
  have i: "i < n" "Suc i < n" using Suc.prems by simp_all
  have p: "push (ring_node i) ?st = ?st1" by (simp add: push_def lessThan_Suc)
  have g: "graph_get (ring n) (ring_node i) = [ring_node (Suc i)]"
    using ring_get[OF i(1)] i(2) by simp
  have nv: "ring_node (Suc i) \<notin> visited ?st1" using ring_node_inj by auto
  have "dfs d (ring n) (ring_node (Suc i)) ?st1 = Raise RecursionError"
    using Suc.IH[of "Suc i"] Suc.prems by simp
  then have "dfs_neighbors d (ring n) [ring_node (Suc i)] ?st1 = Raise RecursionError"
    using nv by simp
  then show ?case using p g by simp
qed

lemma ring_recursion_error:
  assumes "limit < n"
  shows "find_cycle limit (ring n) = Raise RecursionError"
proof -
  have n: "0 < n" using assms by simp
  then have k: "map fst (ring n) = ring_node 0 # map ring_node [1..<n]"
    by (simp add: ring_def comp_def upt_conv_Cons)
  have "dfs limit (ring n) (ring_node 0) \<lparr>visited = {}, stack = {}, path = []\<rparr> =
          Raise RecursionError"
    using ring_descend[of 0 limit n] assms by simp
  then show ?thesis by (simp add: find_cycle_def k)
qed

lemma ring_edge: "i < n \<Longrightarrow> (ring_node i, ring_node (Suc i mod n)) \<in> edges_of (ring n)"
  by (simp add: edges_of_def edge_def ring_get)

lemma ring_reach: "i < n \<Longrightarrow> (ring_node 0, ring_node i) \<in> (edges_of (ring n))\<^sup>*"
proof (induction i)
  case 0
  then show ?case by simp
next
  case (Suc i)
  then have "(ring_node 0, ring_node i) \<in> (edges_of (ring n))\<^sup>*" by simp
  moreover have "(ring_node i, ring_node (Suc i)) \<in> edges_of (ring n)"
    using ring_edge[of i n] Suc.prems by simp
  ultimately show ?case by (rule rtrancl_into_rtrancl)
qed

lemma ring_has_cycle:
  assumes "0 < n"
  shows "has_cycle (ring n)"
proof -
  have l: "n - 1 < n" using assms by simp
  have "(ring_node 0, ring_node (n - 1)) \<in> (edges_of (ring n))\<^sup>*" using ring_reach[OF l] .
  moreover have "(ring_node (n - 1), ring_node 0) \<in> edges_of (ring n)"
    using ring_edge[OF l] assms by simp
  ultimately have "(ring_node 0, ring_node 0) \<in> (edges_of (ring n))\<^sup>+"
    by (rule rtrancl_into_trancl1)
  then show ?thesis unfolding has_cycle_def by blast
qed

text \<open>
  C2 (amended). On a graph that contains a cycle and has fewer keys than the interpreter
  allows nested calls, the search returns a cycle of the graph; and \<open>detect_deadlock\<close>
  then reports a deadlock with a cycle of the graph it has built, in whatever order the
  successor sets are iterated.
\<close>

theorem find_cycle_complete:
  "has_cycle g \<and> length g < limit \<longrightarrow>
     (\<exists>c. find_cycle limit g = Return (Some c) \<and> valid_cycle g c) \<and>
     (\<forall>order ps rs. iterates order \<and> build_wait_for_graph ps rs = Inr g \<longrightarrow>
        (\<exists>edges c. detect_deadlock limit order ps rs = Return (True, edges, c) \<and>
           valid_cycle g c))"
proof (intro impI conjI allI)
  assume a: "has_cycle g \<and> length g < limit"
  then show "\<exists>c. find_cycle limit g = Return (Some c) \<and> valid_cycle g c"
    using find_cycle_finds by blast
next
  fix order ps rs
  assume a: "has_cycle g \<and> length g < limit"
    and b: "iterates order \<and> build_wait_for_graph ps rs = Inr g"
  have "has_cycle (iterated order g)" using a b by (simp add: has_cycle_iterated)
  moreover have "length (iterated order g) < limit" using a by (simp add: length_iterated)
  ultimately obtain c where c: "find_cycle limit (iterated order g) = Return (Some c)"
    "valid_cycle (iterated order g) c" using find_cycle_finds by blast
  have "valid_cycle g c" using c(2) b by (simp add: valid_cycle_iterated)
  moreover have "\<exists>edges. detect_deadlock limit order ps rs = Return (True, edges, c)"
    using b c(1) by (simp add: detect_deadlock_def Let_def)
  ultimately show "\<exists>edges c. detect_deadlock limit order ps rs = Return (True, edges, c) \<and>
           valid_cycle g c" by blast
qed

lemma crossed_has_cycle: "has_cycle crossed_graph"
proof -
  have "(''P1'', ''P2'') \<in> edges_of crossed_graph" "(''P2'', ''P1'') \<in> edges_of crossed_graph"
    by (simp_all add: edges_of_def edge_def graph_get_def crossed_graph_def)
  then have "(''P1'', ''P1'') \<in> (edges_of crossed_graph)\<^sup>+" by (meson trancl.simps)
  then show ?thesis unfolding has_cycle_def by blast
qed

lemma crossed_find_cycle: "find_cycle 1000 crossed_graph = Return (Some [''P1'', ''P2'', ''P1''])"
proof -
  have "\<And>n. find_cycle (Suc (Suc n)) crossed_graph = Return (Some [''P1'', ''P2'', ''P1''])"
    by (simp add: find_cycle_def crossed_graph_def graph_get_def push_def)
  from this[of 998] show ?thesis by simp
qed

lemma crossed_detect:
  "detect_deadlock 1000 (\<lambda>vs. vs) crossed_processes crossed_resources =
     Return (True, [(''P1'', ''P2''), (''P2'', ''P1'')], [''P1'', ''P2'', ''P1''])"
proof -
  have "iterated (\<lambda>vs. vs) crossed_graph = crossed_graph"
    by (simp add: iterated_def crossed_graph_def)
  then show ?thesis using crossed_find_cycle crossed_build
    by (simp add: detect_deadlock_def crossed_graph_def)
qed

theorem find_cycle_complete_witness:
  "has_cycle crossed_graph \<and> length crossed_graph < 1000 \<and>
   iterates (\<lambda>vs. vs) \<and>
   build_wait_for_graph crossed_processes crossed_resources = Inr crossed_graph \<and>
   find_cycle 1000 crossed_graph = Return (Some [''P1'', ''P2'', ''P1'']) \<and>
   valid_cycle crossed_graph [''P1'', ''P2'', ''P1''] \<and>
   detect_deadlock 1000 (\<lambda>vs. vs) crossed_processes crossed_resources =
     Return (True, [(''P1'', ''P2''), (''P2'', ''P1'')], [''P1'', ''P2'', ''P1''])"
proof -
  have l: "length crossed_graph < 1000" by (simp add: crossed_graph_def)
  have it: "iterates (\<lambda>vs. vs)" by (simp add: iterates_def)
  from find_cycle_complete[of crossed_graph 1000] crossed_has_cycle l
  have "\<exists>c. find_cycle 1000 crossed_graph = Return (Some c) \<and> valid_cycle crossed_graph c"
    by blast
  then have "valid_cycle crossed_graph [''P1'', ''P2'', ''P1'']"
    using crossed_find_cycle by simp
  then show ?thesis using crossed_has_cycle l it crossed_build crossed_find_cycle crossed_detect
    by simp
qed

text \<open>
  C2, as it is written, fails on a ring of 1001 nodes: even when the interpreter allows
  1000 nested calls of \<open>dfs\<close> (more than it has left under its default limit of 1000
  frames), the search raises \<open>RecursionError\<close> and returns no cycle.
\<close>

theorem find_cycle_complete_counterexample:
  "has_cycle (ring 1001) \<and> find_cycle 1000 (ring 1001) = Raise RecursionError"
  using ring_has_cycle[of 1001] ring_recursion_error[of 1000 1001] by simp

section \<open>The lock manager keeps the holding invariant\<close>

lemma pid_nth_eq:
  assumes "distinct (map pid ps)" "i < length ps" "j < length ps" "pid (ps ! i) = pid (ps ! j)"
  shows "i = j"
  using assms by (metis distinct_conv_nth length_map nth_map)

lemma request_inv:
  assumes inv: "lm_inv (ps, rs)" and i: "i < length ps"
    and r: "request rs (ps ! i) resource_id = Inr (granted, p', rs')"
  shows "lm_inv (ps[i := p'], rs')"
proof -
  obtain resource where res: "rs resource_id = Some resource"
    using r by (cases "rs resource_id") (auto simp: request_def)
  have d: "distinct (map pid ps)" using inv by (simp add: lm_inv_def)
  have ex: "\<And>j r. j < length ps \<Longrightarrow> r \<in> held_resources (ps ! j) \<Longrightarrow> rs r \<noteq> None"
    using inv by (simp add: lm_inv_def)
  have ho: "\<And>r res q. rs r = Some res \<Longrightarrow> held_by res = Some q \<Longrightarrow> q \<in> set (map pid ps)"
    using inv unfolding lm_inv_def by (metis fst_conv snd_conv)
  have iff: "\<And>r res j. rs r = Some res \<Longrightarrow> j < length ps \<Longrightarrow>
               held_by res = Some (pid (ps ! j)) \<longleftrightarrow> r \<in> held_resources (ps ! j)"
    using inv by (simp add: lm_inv_def)
  show ?thesis
  proof (cases "held_by resource = None")
    case True
    then have p': "p' = (ps ! i)\<lparr>held_resources := insert resource_id (held_resources (ps ! i)),
                         current_request := None, state := RUNNING\<rparr>"
      and rs': "rs' = rs(resource_id \<mapsto> resource\<lparr>held_by := Some (pid (ps ! i))\<rparr>)"
      using r res by (simp_all add: request_def)
    have pidp: "pid p' = pid (ps ! i)" using p' by simp
    have mp: "map pid (ps[i := p']) = map pid ps"
      using pidp i by (simp add: map_update list_update_same_conv)
    have nh: "\<And>j. j < length ps \<Longrightarrow> resource_id \<notin> held_resources (ps ! j)"
      using iff[OF res] True by simp
    have c1: "distinct (map pid (ps[i := p']))" using mp d by simp
    have c2: "\<forall>j < length (ps[i := p']). \<forall>r \<in> held_resources (ps[i := p'] ! j). rs' r \<noteq> None"
      using ex i p' rs' by (auto simp: nth_list_update)
    have c3: "\<forall>r res q. rs' r = Some res \<and> held_by res = Some q \<longrightarrow> q \<in> set (map pid (ps[i := p']))"
    proof (intro allI impI)
      fix r res q assume a: "rs' r = Some res \<and> held_by res = Some q"
      show "q \<in> set (map pid (ps[i := p']))"
      proof (cases "r = resource_id")
        case True
        then have "q = pid (ps ! i)" using a rs' by auto
        then show ?thesis using mp i by simp
      next
        case False
        then show ?thesis using a rs' ho mp by auto
      qed
    qed
    have c4: "\<forall>r res. rs' r = Some res \<longrightarrow>
         (\<forall>j < length (ps[i := p']).
            held_by res = Some (pid (ps[i := p'] ! j)) \<longleftrightarrow> r \<in> held_resources (ps[i := p'] ! j))"
    proof (intro allI impI)
      fix r res j assume a: "rs' r = Some res" and j: "j < length (ps[i := p'])"
      have j': "j < length ps" using j by simp
      have pj: "pid (ps[i := p'] ! j) = pid (ps ! j)"
        using pidp j' by (cases "j = i") (simp_all add: nth_list_update)
      show "held_by res = Some (pid (ps[i := p'] ! j)) \<longleftrightarrow> r \<in> held_resources (ps[i := p'] ! j)"
      proof (cases "r = resource_id")
        case True
        then have hb: "held_by res = Some (pid (ps ! i))" using a rs' by auto
        have "held_by res = Some (pid (ps ! j)) \<longleftrightarrow> j = i"
          using hb pid_nth_eq[OF d j' i] by auto
        moreover have "r \<in> held_resources (ps[i := p'] ! j) \<longleftrightarrow> j = i"
          using True nh[OF j'] p' i j' by (cases "j = i") (simp_all add: nth_list_update)
        ultimately show ?thesis using pj by simp
      next
        case False
        then have "rs r = Some res" using a rs' by simp
        from iff[OF this j'] show ?thesis
          using False pj p' i j' by (cases "j = i") (simp_all add: nth_list_update)
      qed
    qed
    show ?thesis unfolding lm_inv_def using c1 c2 c3 c4 by simp
  next
    case False
    then have rs': "rs' = rs" and p': "p' = ps ! i \<or> p' = mark_blocked (ps ! i) resource_id"
      using r res by (auto simp: request_def split: if_splits)
    have pidp: "pid p' = pid (ps ! i)" and hp: "held_resources p' = held_resources (ps ! i)"
      using p' by (auto simp: mark_blocked_def)
    have mp: "map pid (ps[i := p']) = map pid ps"
      using pidp i by (simp add: map_update list_update_same_conv)
    have nth: "\<And>j. j < length ps \<Longrightarrow> pid (ps[i := p'] ! j) = pid (ps ! j) \<and>
                 held_resources (ps[i := p'] ! j) = held_resources (ps ! j)"
      using pidp hp i by (auto simp: nth_list_update)
    show ?thesis unfolding lm_inv_def using d ex ho iff mp nth rs' by (simp, blast)
  qed
qed

lemma release_all_inv:
  assumes inv: "lm_inv (ps, rs)" and i: "i < length ps"
    and r: "release_all rs (ps ! i) = Inr (p', rs')"
  shows "lm_inv (ps[i := p'], rs')"
proof -
  let ?p = "ps ! i"
  have d: "distinct (map pid ps)" using inv by (simp add: lm_inv_def)
  have ex: "\<And>j r. j < length ps \<Longrightarrow> r \<in> held_resources (ps ! j) \<Longrightarrow> rs r \<noteq> None"
    using inv by (simp add: lm_inv_def)
  have ho: "\<And>r res q. rs r = Some res \<Longrightarrow> held_by res = Some q \<Longrightarrow> q \<in> set (map pid ps)"
    using inv unfolding lm_inv_def by (metis fst_conv snd_conv)
  have iff: "\<And>r res j. rs r = Some res \<Longrightarrow> j < length ps \<Longrightarrow>
               held_by res = Some (pid (ps ! j)) \<longleftrightarrow> r \<in> held_resources (ps ! j)"
    using inv by (simp add: lm_inv_def)
  have p': "p' = ?p\<lparr>held_resources := {}, current_request := None, state := FINISHED\<rparr>"
    using r by (auto simp: release_all_def split: if_splits)
  have rs': "\<And>x. rs' x = (if x \<in> held_resources ?p then
                  (case rs x of None \<Rightarrow> None
                   | Some resource \<Rightarrow> if held_by resource = Some (pid ?p)
                       then Some (resource\<lparr>held_by := None\<rparr>) else Some resource)
                else rs x)"
    using r by (auto simp: release_all_def split: if_splits)
  have pidp: "pid p' = pid ?p" using p' by simp
  have mp: "map pid (ps[i := p']) = map pid ps"
    using pidp i by (simp add: map_update list_update_same_conv)
  \<comment> \<open>what the new dictionary holds\<close>
  have new_held: "\<And>x res'. x \<in> held_resources ?p \<Longrightarrow> rs' x = Some res' \<Longrightarrow> held_by res' = None"
  proof -
    fix x res' assume x: "x \<in> held_resources ?p" and a: "rs' x = Some res'"
    obtain res where res: "rs x = Some res" using ex[OF i x] by auto
    have "held_by res = Some (pid ?p)" using iff[OF res i] x by simp
    then show "held_by res' = None" using a rs'[of x] x res by auto
  qed
  have new_other: "\<And>x. x \<notin> held_resources ?p \<Longrightarrow> rs' x = rs x"
    using rs' by simp
  have dom: "\<And>x. rs x \<noteq> None \<Longrightarrow> rs' x \<noteq> None"
    using rs' by (auto split: option.splits)
  have c1: "distinct (map pid (ps[i := p']))" using mp d by simp
  have c2: "\<forall>j < length (ps[i := p']). \<forall>x \<in> held_resources (ps[i := p'] ! j). rs' x \<noteq> None"
  proof (intro allI impI ballI)
    fix j x assume j: "j < length (ps[i := p'])" and x: "x \<in> held_resources (ps[i := p'] ! j)"
    have "j \<noteq> i" using x p' i by (auto simp: nth_list_update)
    then have "x \<in> held_resources (ps ! j)" using x by simp
    then show "rs' x \<noteq> None" using ex dom j by simp
  qed
  have c3: "\<forall>x res q. rs' x = Some res \<and> held_by res = Some q \<longrightarrow> q \<in> set (map pid (ps[i := p']))"
  proof (intro allI impI)
    fix x res q assume a: "rs' x = Some res \<and> held_by res = Some q"
    have "x \<notin> held_resources ?p" using a new_held by force
    then have "rs x = Some res" using a new_other by simp
    then show "q \<in> set (map pid (ps[i := p']))" using a ho mp by auto
  qed
  have c4: "\<forall>x res. rs' x = Some res \<longrightarrow>
         (\<forall>j < length (ps[i := p']).
            held_by res = Some (pid (ps[i := p'] ! j)) \<longleftrightarrow> x \<in> held_resources (ps[i := p'] ! j))"
  proof (intro allI impI)
    fix x res' j assume a: "rs' x = Some res'" and j: "j < length (ps[i := p'])"
    have j': "j < length ps" using j by simp
    have pj: "pid (ps[i := p'] ! j) = pid (ps ! j)"
      using pidp j' by (cases "j = i") (simp_all add: nth_list_update)
    show "held_by res' = Some (pid (ps[i := p'] ! j)) \<longleftrightarrow> x \<in> held_resources (ps[i := p'] ! j)"
    proof (cases "x \<in> held_resources ?p")
      case True
      have n: "held_by res' = None" using new_held[OF True a] .
      obtain res where res: "rs x = Some res" using ex[OF i True] by auto
      have hb: "held_by res = Some (pid ?p)" using iff[OF res i] True by simp
      have "x \<notin> held_resources (ps[i := p'] ! j)"
      proof (cases "j = i")
        case True
        then show ?thesis using p' i by simp
      next
        case False
        then have "pid (ps ! j) \<noteq> pid ?p" using pid_nth_eq[OF d j' i] by blast
        then have "x \<notin> held_resources (ps ! j)" using iff[OF res j'] hb by simp
        then show ?thesis using False by simp
      qed
      then show ?thesis using n by simp
    next
      case False
      then have res: "rs x = Some res'" using a new_other by simp
      show ?thesis
      proof (cases "j = i")
        case True
        have "held_by res' \<noteq> Some (pid ?p)" using iff[OF res i] False by simp
        then show ?thesis using True p' i pidp by simp
      next
        case ne: False
        then show ?thesis using iff[OF res j'] by simp
      qed
    qed
  qed
  show ?thesis unfolding lm_inv_def using c1 c2 c3 c4 by simp
qed

lemma release_all_no_raise:
  assumes "lm_inv (ps, rs)" "i < length ps"
  shows "\<exists>p' rs'. release_all rs (ps ! i) = Inr (p', rs')"
  using assms by (auto simp: lm_inv_def release_all_def)

lemma lm_apply_inv:
  assumes "lm_inv w" "op_process x < length (fst w)" "lm_apply x w = Inr w'"
  shows "lm_inv w' \<and> length (fst w') = length (fst w)"
proof -
  obtain ps rs where w: "w = (ps, rs)" by (cases w)
  show ?thesis
  proof (cases x)
    case (Request i resource_id)
    then obtain granted p' rs' where
      r: "request rs (ps ! i) resource_id = Inr (granted, p', rs')" and w': "w' = (ps[i := p'], rs')"
      using assms(3) w by (auto split: sum.splits)
    show ?thesis using request_inv[OF _ _ r] assms(1,2) w w' Request by simp
  next
    case (ReleaseAll i)
    then obtain p' rs' where
      r: "release_all rs (ps ! i) = Inr (p', rs')" and w': "w' = (ps[i := p'], rs')"
      using assms(3) w by (auto split: sum.splits)
    show ?thesis using release_all_inv[OF _ _ r] assms(1,2) w w' ReleaseAll by simp
  qed
qed

lemma lm_exec_inv:
  "lm_inv w \<Longrightarrow> \<forall>x \<in> set ops. op_process x < length (fst w) \<Longrightarrow> lm_exec ops w = Inr w' \<Longrightarrow>
     lm_inv w' \<and> length (fst w') = length (fst w)"
proof (induction ops arbitrary: w)
  case Nil
  then show ?case by simp
next
  case (Cons x ops)
  then obtain w1 where a: "lm_apply x w = Inr w1" and e: "lm_exec ops w1 = Inr w'"
    by (auto split: sum.splits)
  have i1: "lm_inv w1 \<and> length (fst w1) = length (fst w)"
    using lm_apply_inv[OF Cons.prems(1) _ a] Cons.prems(2) by simp
  then have "\<forall>x \<in> set ops. op_process x < length (fst w1)" using Cons.prems(2) by simp
  from Cons.IH[OF _ this e] i1 show ?case by simp
qed

lemma initial_inv:
  assumes "initial_world w" "distinct (map pid (fst w))"
  shows "lm_inv w"
  using assms by (auto simp: initial_world_def lm_inv_def)

lemma holders_card:
  assumes inv: "lm_inv (ps, rs)" and res: "rs r = Some res"
  shows "card (holders (ps, rs) r) \<le> 1"
proof -
  have d: "distinct (map pid ps)" using inv by (simp add: lm_inv_def)
  have iff: "\<And>j. j < length ps \<Longrightarrow>
               held_by res = Some (pid (ps ! j)) \<longleftrightarrow> r \<in> held_resources (ps ! j)"
    using inv res by (simp add: lm_inv_def)
  have "\<And>i j. i \<in> holders (ps, rs) r \<Longrightarrow> j \<in> holders (ps, rs) r \<Longrightarrow> i = j"
  proof -
    fix i j assume "i \<in> holders (ps, rs) r" "j \<in> holders (ps, rs) r"
    then have i: "i < length ps" "r \<in> held_resources (ps ! i)"
      and j: "j < length ps" "r \<in> held_resources (ps ! j)" by (simp_all add: holders_def)
    have "pid (ps ! i) = pid (ps ! j)" using iff[OF i(1)] iff[OF j(1)] i(2) j(2) by simp
    then show "i = j" using pid_nth_eq[OF d i(1) j(1)] by simp
  qed
  then have eq: "\<forall>a \<in> holders (ps, rs) r. \<forall>b \<in> holders (ps, rs) r. a = b" by blast
  have "holders (ps, rs) r \<subseteq> {..<length ps}" by (auto simp: holders_def)
  then have "finite (holders (ps, rs) r)" using finite_subset by blast
  from card_le_Suc0_iff_eq[OF this] eq show ?thesis by simp
qed

text \<open>
  C7. From a world in which nothing is held, over processes with distinct pids, after any
  sequence of \<open>request\<close> and \<open>release_all\<close> calls every resource is unheld or held by
  the pid of exactly one process, \<open>held_by\<close> is the pid of a process exactly when the
  process has the resource in \<open>held_resources\<close>, and at most one process holds it.
\<close>

theorem lock_manager_holding_invariant:
  assumes "initial_world (ps0, rs0)" and "distinct (map pid ps0)"
    and "\<forall>x \<in> set ops. op_process x < length ps0"
    and "lm_exec ops (ps0, rs0) = Inr (ps, rs)"
    and "rs r = Some res"
  shows "(held_by res = None \<or> (\<exists>!i. i < length ps \<and> held_by res = Some (pid (ps ! i)))) \<and>
         (\<forall>i < length ps. held_by res = Some (pid (ps ! i)) \<longleftrightarrow> r \<in> held_resources (ps ! i)) \<and>
         card (holders (ps, rs) r) \<le> 1"
proof -
  have "lm_inv (ps0, rs0)" using initial_inv assms(1,2) by simp
  from lm_exec_inv[OF this _ assms(4)] assms(3)
  have inv: "lm_inv (ps, rs)" by simp
  have d: "distinct (map pid ps)" using inv by (simp add: lm_inv_def)
  have iff: "\<forall>i < length ps. held_by res = Some (pid (ps ! i)) \<longleftrightarrow> r \<in> held_resources (ps ! i)"
    using inv assms(5) by (simp add: lm_inv_def)
  have one: "held_by res = None \<or> (\<exists>!i. i < length ps \<and> held_by res = Some (pid (ps ! i)))"
  proof (cases "held_by res")
    case None
    then show ?thesis by simp
  next
    case (Some q)
    have "q \<in> set (map pid ps)"
      using inv assms(5) Some unfolding lm_inv_def by (metis fst_conv snd_conv)
    then obtain i where i: "i < length ps" "pid (ps ! i) = q"
      by (metis in_set_conv_nth length_map nth_map)
    have "\<And>j. j < length ps \<and> held_by res = Some (pid (ps ! j)) \<Longrightarrow> j = i"
      using pid_nth_eq[OF d _ i(1)] Some i(2) by simp
    then show ?thesis using Some i by blast
  qed
  show ?thesis using one iff holders_card[OF inv assms(5)] by blast
qed

lemma demo_initial: "initial_world demo_world"
  by (auto simp: initial_world_def demo_world_def nth_Cons' less_Suc_eq numeral_3_eq_3)

lemma demo_exec:
  "\<exists>ps rs. lm_exec demo_ops demo_world = Inr (ps, rs) \<and>
     rs ''R1'' = Some \<lparr>rid = ''R1'', held_by = Some ''P1''\<rparr> \<and>
     map held_resources ps = [{''R1''}, {''R2''}, {}] \<and> map pid ps = [''P1'', ''P2'', ''P3''] \<and>
     map state ps = [BLOCKED, RUNNING, BLOCKED]"
  by (simp add: demo_ops_def demo_world_def request_def mark_blocked_def)

theorem lock_manager_holding_invariant_witness:
  "initial_world demo_world \<and> distinct (map pid (fst demo_world)) \<and>
   (case lm_exec demo_ops demo_world of
      Inl e \<Rightarrow> False
    | Inr w \<Rightarrow> map_option held_by (snd w ''R1'') = Some (Some ''P1'') \<and>
               ''R1'' \<in> held_resources (fst w ! 0) \<and> card (holders w ''R1'') \<le> 1)"
proof -
  obtain ps rs where e: "lm_exec demo_ops demo_world = Inr (ps, rs)"
    and r1: "rs ''R1'' = Some \<lparr>rid = ''R1'', held_by = Some ''P1''\<rparr>"
    and h: "map held_resources ps = [{''R1''}, {''R2''}, {}]"
    and p: "map pid ps = [''P1'', ''P2'', ''P3'']"
    using demo_exec by (elim exE conjE) (rule that)
  have w: "demo_world = (fst demo_world, snd demo_world)" by simp
  have d: "distinct (map pid (fst demo_world))" by (simp add: demo_world_def)
  have o: "\<forall>x \<in> set demo_ops. op_process x < length (fst demo_world)"
    by (simp add: demo_ops_def demo_world_def)
  have i: "initial_world (fst demo_world, snd demo_world)" using demo_initial by simp
  have e': "lm_exec demo_ops (fst demo_world, snd demo_world) = Inr (ps, rs)" using e by simp
  from lock_manager_holding_invariant[OF i d o e' r1]
  have iff: "\<forall>i < length ps. held_by \<lparr>rid = ''R1'', held_by = Some ''P1''\<rparr> = Some (pid (ps ! i))
               \<longleftrightarrow> ''R1'' \<in> held_resources (ps ! i)"
    and c: "card (holders (ps, rs) ''R1'') \<le> 1" by blast+
  have "length (map pid ps) = 3" using p by simp
  then have l: "length ps = 3" by simp
  have "map pid ps ! 0 = ''P1''" using p by simp
  then have "pid (ps ! 0) = ''P1''" using l by simp
  moreover have "(0::nat) < length ps" using l by simp
  ultimately have "''R1'' \<in> held_resources (ps ! 0)" using iff[rule_format, of 0] by simp
  then show ?thesis using demo_initial d e r1 c by simp
qed

section \<open>Properties of the simulator\<close>

subsection \<open>The detector leaves the world as it finds it\<close>

lemma build_loop_heap_frame: "build_loop_heap idx g w = Inr (g', w') \<Longrightarrow> w' = w"
proof (induction idx arbitrary: g)
  case Nil
  then show ?case by simp
next
  case (Cons i rest)
  have "\<exists>g1. build_loop_heap rest g1 w = Inr (g', w')"
    using Cons.prems by (auto simp: Let_def split: if_splits option.splits)
  then show ?case using Cons.IH by blast
qed

lemma build_loop_heap_pure:
  "build_loop_heap [k..<length ps] g (ps, rs) =
     (case build_loop (drop k ps) rs g of Inl e \<Rightarrow> Inl e | Inr g' \<Rightarrow> Inr (g', (ps, rs)))"
proof (induction "length ps - k" arbitrary: k g)
  case 0
  then show ?case by simp
next
  case (Suc m)
  then have k: "k < length ps" by simp
  have u: "[k..<length ps] = k # [Suc k..<length ps]" using k by (simp add: upt_conv_Cons)
  have d: "drop k ps = ps ! k # drop (Suc k) ps" using k by (simp add: Cons_nth_drop_Suc)
  have m: "m = length ps - Suc k" using Suc.hyps(2) by simp
  have ih: "\<And>g1. build_loop_heap [Suc k..<length ps] g1 (ps, rs) =
     (case build_loop (drop (Suc k) ps) rs g1 of Inl e \<Rightarrow> Inl e | Inr g' \<Rightarrow> Inr (g', (ps, rs)))"
    using Suc.hyps(1)[OF m] .
  show ?case unfolding u d
    by (simp add: ih Let_def split: option.splits)
qed

lemma build_wait_for_graph_heap_pure:
  "build_wait_for_graph_heap w =
     (case build_wait_for_graph (fst w) (snd w) of Inl e \<Rightarrow> Inl e | Inr g \<Rightarrow> Inr (g, w))"
proof (cases w)
  case (Pair ps rs)
  show ?thesis unfolding Pair using build_loop_heap_pure[of 0 ps "[]" rs]
    by (simp add: build_wait_for_graph_heap_def build_wait_for_graph_def)
qed

lemma detect_deadlock_heap_pure:
  "detect_deadlock_heap limit order w =
     (case detect_deadlock limit order (fst w) (snd w) of
        Raise e \<Rightarrow> Raise e
      | Return r \<Rightarrow> Return (r, w))"
proof (cases "build_wait_for_graph (fst w) (snd w)")
  case (Inl e)
  then show ?thesis
    by (simp add: detect_deadlock_heap_def detect_deadlock_def build_wait_for_graph_heap_pure)
next
  case (Inr built)
  then show ?thesis
    by (cases "find_cycle limit (iterated order built)")
      (simp_all add: detect_deadlock_heap_def detect_deadlock_def
        build_wait_for_graph_heap_pure Let_def)
qed

lemma step_pure:
  "step py sim =
     (case sweeps sim of
        Inl e \<Rightarrow> Raise e
      | Inr sim1 \<Rightarrow>
          (case detect_deadlock (depth py) (set_order py) (processes sim1) (resources sim1) of
             Raise e \<Rightarrow> Raise e
           | Return (deadlock, edges, cycle) \<Rightarrow>
               if deadlock
               then Return (sim1\<lparr>processes := mark_cycle cycle (processes sim1)\<rparr>, True)
               else Return (sim1, False)))"
proof (cases "sweeps sim")
  case (Inl e)
  then show ?thesis by (simp add: step_def)
next
  case (Inr sim1)
  show ?thesis
  proof (cases "detect_deadlock (depth py) (set_order py) (processes sim1) (resources sim1)")
    case (Raise e)
    then show ?thesis using Inr by (simp add: step_def detect_deadlock_heap_pure)
  next
    case (Return r)
    obtain deadlock edges cycle where r: "r = (deadlock, edges, cycle)" by (cases r)
    show ?thesis using Inr Return r by (simp add: step_def detect_deadlock_heap_pure)
  qed
qed

subsection \<open>What a run can do\<close>

text \<open>
  The only exceptions of the modelled code are the \<open>KeyError\<close> of a dictionary lookup and
  the \<open>RecursionError\<close> of the search.
\<close>

lemma lm_apply_KeyError: "lm_apply x w = Inl e \<Longrightarrow> e = KeyError"
proof (cases x)
  case (Request i r)
  assume "lm_apply x w = Inl e"
  then show ?thesis using Request
    by (cases w) (auto simp: request_def split: sum.splits option.splits if_splits)
next
  case (ReleaseAll i)
  assume "lm_apply x w = Inl e"
  then show ?thesis using ReleaseAll
    by (cases w) (auto simp: release_all_def split: sum.splits option.splits if_splits)
qed

lemma step_process_KeyError: "step_process b i w = Inl e \<Longrightarrow> e = KeyError"
  using lm_apply_KeyError
  by (auto simp: step_process_def Let_def split: if_splits option.splits)

lemma step_loop_KeyError: "step_loop b idx w = Inl e \<Longrightarrow> e = KeyError"
  using step_process_KeyError
  by (induction idx arbitrary: w) (auto split: sum.splits)

lemma complete_loop_KeyError: "complete_loop idx w = Inl e \<Longrightarrow> e = KeyError"
  using lm_apply_KeyError
  by (induction idx arbitrary: w) (auto split: sum.splits if_splits)

lemma sweeps_KeyError: "sweeps sim = Inl e \<Longrightarrow> e = KeyError"
  using step_loop_KeyError complete_loop_KeyError
  by (auto simp: sweeps_def Let_def split: sum.splits prod.splits)

lemma build_loop_KeyError: "build_loop ps rs g = Inl e \<Longrightarrow> e = KeyError"
  by (induction ps arbitrary: g) (auto split: if_splits option.splits)

lemma detect_deadlock_errors:
  "detect_deadlock limit order ps rs = Raise e \<Longrightarrow> e = KeyError \<or> e = RecursionError"
  using build_loop_KeyError find_cycle_no_raise
  by (auto simp: detect_deadlock_def build_wait_for_graph_def Let_def
      split: sum.splits outcome.splits)

lemma step_errors: "step py sim = Raise e \<Longrightarrow> e = KeyError \<or> e = RecursionError"
  using sweeps_KeyError detect_deadlock_errors
  by (auto simp: step_pure split: sum.splits outcome.splits prod.splits if_splits)

lemma run_loop_errors:
  "run_loop py m sim = Raise e \<Longrightarrow> e = KeyError \<or> e = RecursionError"
proof (induction m arbitrary: sim)
  case 0
  then show ?case by simp
next
  case (Suc m)
  show ?case
  proof (cases "step py sim")
    case (Raise e')
    then show ?thesis using step_errors Suc.prems by auto
  next
    case (Return x)
    obtain sim' d where x: "x = (sim', d)" by (cases x)
    show ?thesis using Suc.IH[of sim'] Suc.prems Return x
      by (auto split: outcome.splits prod.splits if_splits)
  qed
qed

text \<open>
  A run that returns made \<open>k\<close> steps, stopped for one of its three reasons, and had none of
  them after an earlier step.
\<close>

lemma run_loop_stops:
  "run_loop py m sim = Return (sim', k, d) \<Longrightarrow>
     k \<le> m \<and> steps py k sim = Return (sim', d) \<and>
     (\<forall>j. 0 < j \<and> j < k \<longrightarrow> (\<exists>s. steps py j sim = Return (s, False) \<and> \<not> all_finished s)) \<and>
     (k = m \<or> d \<or> all_finished sim')"
proof (induction m arbitrary: sim sim' k d)
  case 0
  then show ?case by simp
next
  case (Suc m)
  from Suc.prems obtain s1 d1 where st: "step py sim = Return (s1, d1)"
    by (auto split: outcome.splits)
  show ?case
  proof (cases "d1 \<or> all_finished s1")
    case True
    then have "sim' = s1" "k = 1" "d = d1" using Suc.prems st by (auto split: if_splits)
    then show ?thesis using st True by simp
  next
    case False
    then obtain k' where r: "run_loop py m s1 = Return (sim', k', d)" and k: "k = Suc k'"
      using Suc.prems st by (auto split: outcome.splits)
    from Suc.IH[OF r]
    have ih: "k' \<le> m" "steps py k' s1 = Return (sim', d)"
      "\<forall>j. 0 < j \<and> j < k' \<longrightarrow> (\<exists>s. steps py j s1 = Return (s, False) \<and> \<not> all_finished s)"
      "k' = m \<or> d \<or> all_finished sim'" by simp_all
    have one: "steps py 1 sim = Return (s1, False)" using st False by simp
    have a: "k \<le> Suc m" using ih(1) k by simp
    have b: "steps py k sim = Return (sim', d)"
    proof (cases "k' = 0")
      case True
      then have "sim' = s1" "d = False" using ih(2) by simp_all
      then show ?thesis using one k True by simp
    next
      case nz: False
      then show ?thesis using st k ih(2) by simp
    qed
    have c: "\<forall>j. 0 < j \<and> j < k \<longrightarrow> (\<exists>s. steps py j sim = Return (s, False) \<and> \<not> all_finished s)"
    proof (intro allI impI)
      fix j assume j: "0 < j \<and> j < k"
      then obtain j' where j': "j = Suc j'" by (cases j) auto
      show "\<exists>s. steps py j sim = Return (s, False) \<and> \<not> all_finished s"
      proof (cases "j' = 0")
        case True
        then show ?thesis using one j' False by simp
      next
        case nz: False
        then have "0 < j' \<and> j' < k'" using j j' k by simp
        then obtain s where "steps py j' s1 = Return (s, False) \<and> \<not> all_finished s"
          using ih(3) by blast
        then show ?thesis using j' nz st by simp
      qed
    qed
    have e: "k = Suc m \<or> d \<or> all_finished sim'"
    proof (cases "k' = 0")
      case True
      then have "sim' = s1" "d = False" using ih(2) by simp_all
      then show ?thesis using ih(4) False True k by simp
    next
      case nz: False
      then show ?thesis using ih(4) k by simp
    qed
    show ?thesis using a b c e by blast
  qed
qed


lemma run_outcomes:
  "(\<forall>e. run py sim = Raise e \<longrightarrow> e = KeyError \<or> e = RecursionError) \<and>
   (\<forall>sim' k d. run py sim = Return (sim', k, d) \<longrightarrow>
      int k \<le> max 0 (max_steps sim) \<and> steps py k sim = Return (sim', d) \<and>
      (\<forall>j. 0 < j \<and> j < k \<longrightarrow> (\<exists>s. steps py j sim = Return (s, False) \<and> \<not> all_finished s)) \<and>
      (int k = max 0 (max_steps sim) \<or> d \<or> all_finished sim'))"
proof -
  have t: "\<forall>e. run py sim = Raise e \<longrightarrow> e = KeyError \<or> e = RecursionError"
    using run_loop_errors[of py "nat (max_steps sim)" sim] by (simp add: run_def)
  have m: "int (nat (max_steps sim)) = max 0 (max_steps sim)" by simp
  have "\<And>sim' k d. run py sim = Return (sim', k, d) \<Longrightarrow>
      int k \<le> max 0 (max_steps sim) \<and> steps py k sim = Return (sim', d) \<and>
      (\<forall>j. 0 < j \<and> j < k \<longrightarrow> (\<exists>s. steps py j sim = Return (s, False) \<and> \<not> all_finished s)) \<and>
      (int k = max 0 (max_steps sim) \<or> d \<or> all_finished sim')"
  proof -
    fix sim' k d assume "run py sim = Return (sim', k, d)"
    then have r: "run_loop py (nat (max_steps sim)) sim = Return (sim', k, d)" by (simp add: run_def)
    from run_loop_stops[OF r]
    have s: "k \<le> nat (max_steps sim)" "steps py k sim = Return (sim', d)"
      "\<forall>j. 0 < j \<and> j < k \<longrightarrow> (\<exists>s. steps py j sim = Return (s, False) \<and> \<not> all_finished s)"
      "k = nat (max_steps sim) \<or> d \<or> all_finished sim'" by simp_all
    have "int k \<le> max 0 (max_steps sim)" using s(1) by linarith
    moreover have "int k = max 0 (max_steps sim) \<or> d \<or> all_finished sim'"
      using s(4) m by (metis)
    ultimately show "int k \<le> max 0 (max_steps sim) \<and> steps py k sim = Return (sim', d) \<and>
      (\<forall>j. 0 < j \<and> j < k \<longrightarrow> (\<exists>s. steps py j sim = Return (s, False) \<and> \<not> all_finished s)) \<and>
      (int k = max 0 (max_steps sim) \<or> d \<or> all_finished sim')"
      using s(2,3) by blast
  qed
  then show ?thesis using t by blast
qed

subsection \<open>Registered resources: no lookup fails\<close>

lemma request_registered:
  assumes "registered ps rs" "i < length ps" "rs r \<noteq> None"
  shows "\<exists>ps' rs'. lm_apply (Request i r) (ps, rs) = Inr (ps', rs') \<and> registered ps' rs' \<and>
           length ps' = length ps"
proof -
  obtain res where res: "rs r = Some res" using assms(3) by auto
  have pi: "ps ! i \<in> set ps" using assms(2) by simp
  have sub: "\<And>p'. set (ps[i := p']) \<subseteq> insert p' (set ps)" by (rule set_update_subset_insert)
  show ?thesis
  proof (cases "held_by res = None")
    case True
    let ?p = "(ps ! i)\<lparr>held_resources := insert r (held_resources (ps ! i)),
                 current_request := None, state := RUNNING\<rparr>"
    let ?rs = "rs(r \<mapsto> res\<lparr>held_by := Some (pid (ps ! i))\<rparr>)"
    have a: "lm_apply (Request i r) (ps, rs) = Inr (ps[i := ?p], ?rs)"
      using res True by (simp add: request_def)
    have d: "\<And>x. rs x \<noteq> None \<Longrightarrow> ?rs x \<noteq> None" by simp
    have "registered (ps[i := ?p]) ?rs"
      unfolding registered_def
    proof
      fix p assume "p \<in> set (ps[i := ?p])"
      then have "p = ?p \<or> p \<in> set ps" using sub by blast
      then show "(\<forall>r\<in>set (plan p). ?rs r \<noteq> None) \<and> (\<forall>r\<in>held_resources p. ?rs r \<noteq> None) \<and>
                 (\<forall>r. current_request p = Some r \<longrightarrow> ?rs r \<noteq> None)"
        using assms(1) pi unfolding registered_def by auto
    qed
    then show ?thesis using a by simp
  next
    case False
    show ?thesis
    proof (cases "held_by res = Some (pid (ps ! i))")
      case True
      have a: "lm_apply (Request i r) (ps, rs) = Inr (ps[i := ps ! i], rs)"
        using res True by (simp add: request_def)
      show ?thesis using a assms(1) by simp
    next
      case F2: False
      have a: "lm_apply (Request i r) (ps, rs) = Inr (ps[i := mark_blocked (ps ! i) r], rs)"
        using res False F2 by (auto simp: request_def)
      have "registered (ps[i := mark_blocked (ps ! i) r]) rs"
        unfolding registered_def
      proof
        fix p assume "p \<in> set (ps[i := mark_blocked (ps ! i) r])"
        then have "p = mark_blocked (ps ! i) r \<or> p \<in> set ps" using sub by blast
        then show "(\<forall>r\<in>set (plan p). rs r \<noteq> None) \<and> (\<forall>r\<in>held_resources p. rs r \<noteq> None) \<and>
                 (\<forall>r. current_request p = Some r \<longrightarrow> rs r \<noteq> None)"
          using assms(1,3) pi unfolding registered_def mark_blocked_def by auto
      qed
      then show ?thesis using a by simp
    qed
  qed
qed

lemma release_all_registered:
  assumes "registered ps rs" "i < length ps"
  shows "\<exists>ps' rs'. lm_apply (ReleaseAll i) (ps, rs) = Inr (ps', rs') \<and> registered ps' rs' \<and>
           length ps' = length ps"
proof -
  have pi: "ps ! i \<in> set ps" using assms(2) by simp
  have sub: "\<And>p'. set (ps[i := p']) \<subseteq> insert p' (set ps)" by (rule set_update_subset_insert)
  have ok: "\<not> (\<exists>res_id \<in> held_resources (ps ! i). rs res_id = None)"
    using assms(1) pi unfolding registered_def by blast
  define p' where "p' = (ps ! i)\<lparr>held_resources := {}, current_request := None, state := FINISHED\<rparr>"
  define rs' where "rs' = (\<lambda>res_id.
                if res_id \<in> held_resources (ps ! i) then
                  (case rs res_id of
                     None \<Rightarrow> None
                   | Some resource \<Rightarrow>
                       if held_by resource = Some (pid (ps ! i))
                       then Some (resource\<lparr>held_by := None\<rparr>) else Some resource)
                else rs res_id)"
  have r: "release_all rs (ps ! i) = Inr (p', rs')"
    using ok unfolding release_all_def p'_def rs'_def by simp
  have d: "\<And>x. rs x \<noteq> None \<Longrightarrow> rs' x \<noteq> None"
    unfolding rs'_def by (auto split: option.splits)
  note p' = p'_def
  have a: "lm_apply (ReleaseAll i) (ps, rs) = Inr (ps[i := p'], rs')" using r by simp
  have "registered (ps[i := p']) rs'"
    unfolding registered_def
  proof
    fix p assume "p \<in> set (ps[i := p'])"
    then have "p = p' \<or> p \<in> set ps" using sub by blast
    then show "(\<forall>r\<in>set (plan p). rs' r \<noteq> None) \<and> (\<forall>r\<in>held_resources p. rs' r \<noteq> None) \<and>
                 (\<forall>r. current_request p = Some r \<longrightarrow> rs' r \<noteq> None)"
      using assms(1) pi d p' unfolding registered_def by auto
  qed
  then show ?thesis using a by simp
qed

lemma next_request_in_plan: "next_request p b = Some r \<Longrightarrow> r \<in> set (plan p)"
proof -
  assume a: "next_request p b = Some r"
  let ?rem = "filter (\<lambda>r. r \<notin> held_resources p) (plan p)"
  have ne: "?rem \<noteq> []" using a by (auto simp: next_request_def Let_def split: if_splits)
  show ?thesis
  proof (cases b)
    case True
    then have "r = hd (sort ?rem)" using a ne by (auto simp: next_request_def Let_def split: if_splits)
    moreover have "sort ?rem \<noteq> []" using ne by (metis length_sort length_0_conv)
    then have "hd (sort ?rem) \<in> set (sort ?rem)" by (rule hd_in_set)
    ultimately have "r \<in> set (sort ?rem)" by (simp only:)
    moreover have "set (sort ?rem) \<subseteq> set (plan p)" by auto
    ultimately show ?thesis by blast
  next
    case False
    then have "find (\<lambda>x. x \<notin> held_resources p) (plan p) = Some r"
      using a ne by (auto simp: next_request_def Let_def split: if_splits)
    then show ?thesis by (auto simp: find_Some_iff)
  qed
qed

lemma step_process_registered:
  assumes "registered ps rs" "i < length ps"
  shows "\<exists>ps' rs'. step_process b i (ps, rs) = Inr (ps', rs') \<and> registered ps' rs' \<and>
           length ps' = length ps"
proof -
  have pi: "ps ! i \<in> set ps" using assms(2) by simp
  have triv: "\<exists>ps' rs'. Inr (ps, rs) = (Inr (ps', rs') :: error + world) \<and> registered ps' rs' \<and>
           length ps' = length ps" using assms(1) by simp
  show ?thesis
  proof (cases "state (ps ! i) = DEADLOCKED \<or> state (ps ! i) = FINISHED")
    case True
    then show ?thesis using triv by (simp add: step_process_def Let_def)
  next
    case nt: False
    show ?thesis
    proof (cases "state (ps ! i) = BLOCKED \<and> truthy (current_request (ps ! i))")
      case True
      then obtain r where r: "current_request (ps ! i) = Some r" by (cases "current_request (ps ! i)") auto
      then have "rs r \<noteq> None" using assms(1) pi unfolding registered_def by blast
      from request_registered[OF assms(1,2) this]
      show ?thesis using nt True r by (simp add: step_process_def Let_def)
    next
      case nb: False
      show ?thesis
      proof (cases "state (ps ! i) = RUNNING")
        case False
        then show ?thesis using nt nb triv by (auto simp: step_process_def Let_def)
      next
        case run: True
        show ?thesis
        proof (cases "has_all_resources (ps ! i)")
          case True
          from release_all_registered[OF assms(1,2)]
          show ?thesis using nt nb run True by (simp add: step_process_def Let_def)
        next
          case nh: False
          show ?thesis
          proof (cases "next_request (ps ! i) b")
            case None
            then show ?thesis using nt nb run nh triv by (simp add: step_process_def Let_def)
          next
            case (Some target)
            then have "target \<in> set (plan (ps ! i))" by (rule next_request_in_plan)
            then have "rs target \<noteq> None" using assms(1) pi unfolding registered_def by blast
            from request_registered[OF assms(1,2) this]
            show ?thesis using nt nb run nh Some triv by (simp add: step_process_def Let_def)
          qed
        qed
      qed
    qed
  qed
qed

lemma step_loop_registered:
  "registered ps rs \<Longrightarrow> \<forall>i \<in> set idx. i < length ps \<Longrightarrow>
     \<exists>ps' rs'. step_loop b idx (ps, rs) = Inr (ps', rs') \<and> registered ps' rs' \<and>
           length ps' = length ps"
proof (induction idx arbitrary: ps rs)
  case Nil
  then show ?case by simp
next
  case (Cons i rest)
  have "i < length ps" using Cons.prems(2) by simp
  from step_process_registered[OF Cons.prems(1) this, of b]
  obtain ps1 rs1 where s: "step_process b i (ps, rs) = Inr (ps1, rs1)" "registered ps1 rs1"
    "length ps1 = length ps" by blast
  have "\<forall>i \<in> set rest. i < length ps1" using Cons.prems(2) s(3) by simp
  from Cons.IH[OF s(2) this] show ?case using s(1,3) by simp
qed

lemma complete_loop_registered:
  "registered ps rs \<Longrightarrow> \<forall>i \<in> set idx. i < length ps \<Longrightarrow>
     \<exists>ps' rs'. complete_loop idx (ps, rs) = Inr (ps', rs') \<and> registered ps' rs' \<and>
           length ps' = length ps"
proof (induction idx arbitrary: ps rs)
  case Nil
  then show ?case by simp
next
  case (Cons i rest)
  have i: "i < length ps" using Cons.prems(2) by simp
  show ?case
  proof (cases "state (ps ! i) = RUNNING \<and> has_all_resources (ps ! i)")
    case True
    from release_all_registered[OF Cons.prems(1) i]
    obtain ps1 rs1 where s: "lm_apply (ReleaseAll i) (ps, rs) = Inr (ps1, rs1)" "registered ps1 rs1"
      "length ps1 = length ps" by blast
    have "\<forall>i \<in> set rest. i < length ps1" using Cons.prems(2) s(3) by simp
    from Cons.IH[OF s(2) this] show ?thesis using s(1,3) True by simp
  next
    case False
    have "\<forall>i \<in> set rest. i < length ps" using Cons.prems(2) by simp
    from Cons.IH[OF Cons.prems(1) this] show ?thesis using False by auto
  qed
qed

lemma sweeps_registered:
  assumes "registered (processes sim) (resources sim)"
  shows "\<exists>sim1. sweeps sim = Inr sim1 \<and> registered (processes sim1) (resources sim1) \<and>
           length (processes sim1) = length (processes sim) \<and> max_steps sim1 = max_steps sim"
proof -
  let ?idx = "[0..<length (processes sim)]"
  have b: "\<forall>i \<in> set ?idx. i < length (processes sim)" by simp
  from step_loop_registered[OF assms b, of "mode sim = ''ordered''"]
  obtain ps1 rs1 where s: "step_loop (mode sim = ''ordered'') ?idx (processes sim, resources sim) = Inr (ps1, rs1)"
    "registered ps1 rs1" "length ps1 = length (processes sim)" by blast
  have b1: "\<forall>i \<in> set ?idx. i < length ps1" using s(3) by simp
  from complete_loop_registered[OF s(2) b1]
  obtain ps2 rs2 where c: "complete_loop ?idx (ps1, rs1) = Inr (ps2, rs2)" "registered ps2 rs2"
    "length ps2 = length ps1" by blast
  show ?thesis using s(1,3) c by (simp add: sweeps_def Let_def)
qed

lemma build_loop_registered:
  "registered ps rs \<Longrightarrow> \<exists>g'. build_loop ps rs g = Inr g'"
proof (induction ps arbitrary: g)
  case Nil
  then show ?case by simp
next
  case (Cons p ps)
  have r: "registered ps rs" using Cons.prems unfolding registered_def by simp
  have c: "\<And>x. current_request p = Some x \<Longrightarrow> rs x \<noteq> None"
    using Cons.prems unfolding registered_def by simp
  show ?case using Cons.IH[OF r] c
    by (auto split: option.splits)
qed

lemma detect_deadlock_registered:
  assumes "registered ps rs" and "length ps < limit"
  shows "\<exists>d es c. detect_deadlock limit order ps rs = Return (d, es, c)"
proof -
  obtain g where g: "build_wait_for_graph ps rs = Inr g"
    using build_loop_registered[OF assms(1)] unfolding build_wait_for_graph_def by blast
  have "length (iterated order g) < limit"
    using build_wait_for_graph_length[OF g] assms(2) by (simp add: length_iterated)
  from find_cycle_returns[OF this] obtain c where "find_cycle limit (iterated order g) = Return c"
    by blast
  then show ?thesis using g by (simp add: detect_deadlock_def Let_def)
qed

lemma mark_cycle_length: "length (mark_cycle cycle ps) = length ps"
  by (induction cycle arbitrary: ps) (auto split: option.splits)

lemma mark_cycle_registered:
  "registered ps rs \<Longrightarrow> registered (mark_cycle cycle ps) rs"
proof (induction cycle arbitrary: ps)
  case Nil
  then show ?case by simp
next
  case (Cons q cycle)
  show ?case
  proof (cases "process_by_id ps q")
    case None
    then show ?thesis using Cons by simp
  next
    case (Some i)
    then have i: "i < length ps" unfolding process_by_id_def using index_of_nth by fastforce
    then have pi: "ps ! i \<in> set ps" by simp
    have "registered (ps[i := mark_deadlocked (ps ! i)]) rs"
      unfolding registered_def
    proof
      fix p assume "p \<in> set (ps[i := mark_deadlocked (ps ! i)])"
      then have "p = mark_deadlocked (ps ! i) \<or> p \<in> set ps"
        using set_update_subset_insert by fastforce
      then show "(\<forall>r\<in>set (plan p). rs r \<noteq> None) \<and> (\<forall>r\<in>held_resources p. rs r \<noteq> None) \<and>
                 (\<forall>r. current_request p = Some r \<longrightarrow> rs r \<noteq> None)"
        using Cons.prems pi unfolding registered_def mark_deadlocked_def by auto
    qed
    from Cons.IH[OF this] show ?thesis using Some by simp
  qed
qed

lemma step_registered:
  assumes "registered (processes sim) (resources sim)" and "length (processes sim) < depth py"
  shows "\<exists>sim' d. step py sim = Return (sim', d) \<and> registered (processes sim') (resources sim') \<and>
           length (processes sim') = length (processes sim)"
proof -
  obtain sim1 where s: "sweeps sim = Inr sim1" "registered (processes sim1) (resources sim1)"
    "length (processes sim1) = length (processes sim)"
    using sweeps_registered[OF assms(1)] by blast
  have "length (processes sim1) < depth py" using s(3) assms(2) by simp
  from detect_deadlock_registered[OF s(2) this, of "set_order py"]
  obtain d es c where dd: "detect_deadlock (depth py) (set_order py) (processes sim1) (resources sim1) =
      Return (d, es, c)" by blast
  show ?thesis using s dd mark_cycle_registered[OF s(2), of c] mark_cycle_length[of c "processes sim1"]
    by (cases d) (auto simp: step_pure)
qed

lemma run_loop_registered:
  "registered (processes sim) (resources sim) \<Longrightarrow> length (processes sim) < depth py \<Longrightarrow>
     \<exists>sim' k d. run_loop py m sim = Return (sim', k, d)"
proof (induction m arbitrary: sim)
  case 0
  show ?case by auto
next
  case (Suc m)
  obtain s1 d1 where s: "step py sim = Return (s1, d1)" "registered (processes s1) (resources s1)"
    "length (processes s1) = length (processes sim)"
    using step_registered[OF Suc.prems] by blast
  have "length (processes s1) < depth py" using s(3) Suc.prems(2) by simp
  from Suc.IH[OF s(2) this] obtain s2 k2 d2 where "run_loop py m s1 = Return (s2, k2, d2)" by blast
  then show ?case using s(1) by auto
qed

text \<open>
  C8 (amended). When every resource id that a process names is a key of the resource
  dictionary, and the interpreter allows more nested calls of \<open>dfs\<close> than there are
  processes, \<open>Simulator.run\<close> returns, after \<open>k\<close> calls of \<open>step\<close> with \<open>k\<close> at most
  \<open>max_steps\<close> (\<open>range\<close> of a negative number is empty, so at most \<open>max 0 max_steps\<close>); the
  \<open>k\<close>-th step is the last one; after every earlier step no deadlock had been reported and
  some process was not FINISHED; and the run stopped because \<open>max_steps\<close> steps were made,
  or the last step's detector call reported a deadlock, or every process was FINISHED
  after it.
\<close>

theorem run_terminates:
  assumes "registered (processes sim) (resources sim)"
    and "length (processes sim) < depth py"
  shows "\<exists>sim' k d. run py sim = Return (sim', k, d) \<and>
      int k \<le> max 0 (max_steps sim) \<and> steps py k sim = Return (sim', d) \<and>
      (\<forall>j. 0 < j \<and> j < k \<longrightarrow> (\<exists>s. steps py j sim = Return (s, False) \<and> \<not> all_finished s)) \<and>
      (int k = max 0 (max_steps sim) \<or> d \<or> all_finished sim')"
proof -
  obtain sim' k d where r: "run_loop py (nat (max_steps sim)) sim = Return (sim', k, d)"
    using run_loop_registered[OF assms] by blast
  from run_loop_stops[OF r]
  have s: "k \<le> nat (max_steps sim)" "steps py k sim = Return (sim', d)"
    "\<forall>j. 0 < j \<and> j < k \<longrightarrow> (\<exists>s. steps py j sim = Return (s, False) \<and> \<not> all_finished s)"
    "k = nat (max_steps sim) \<or> d \<or> all_finished sim'" by simp_all
  have m: "int (nat (max_steps sim)) = max 0 (max_steps sim)" by simp
  have a: "int k \<le> max 0 (max_steps sim)" using s(1) by linarith
  have b: "int k = max 0 (max_steps sim) \<or> d \<or> all_finished sim'" using s(4) m by metis
  have "run py sim = Return (sim', k, d)" using r by (simp add: run_def)
  then show ?thesis using a b s(2,3) by blast
qed

lemma demo_registered:
  "registered (processes (demo_sim m n)) (resources (demo_sim m n))"
  by (simp add: registered_def demo_sim_def Simulator_init_def demo_world_def)

theorem run_terminates_witness:
  "registered (processes (demo_sim ''naive'' 50)) (resources (demo_sim ''naive'' 50)) \<and>
   length (processes (demo_sim ''naive'' 50)) < depth roomy \<and>
   (\<exists>sim' k d. run roomy (demo_sim ''naive'' 50) = Return (sim', k, d) \<and> int k \<le> 50 \<and>
      steps roomy k (demo_sim ''naive'' 50) = Return (sim', d) \<and>
      (int k = 50 \<or> d \<or> all_finished sim'))"
proof -
  have m: "max_steps (demo_sim ''naive'' 50) = 50" by (simp add: demo_sim_def Simulator_init_def)
  have l: "length (processes (demo_sim ''naive'' 50)) < depth roomy"
    by (simp add: demo_sim_def Simulator_init_def demo_world_def roomy_def)
  from run_terminates[OF demo_registered[of "''naive''" 50] l]
  obtain sim' k d where "run roomy (demo_sim ''naive'' 50) = Return (sim', k, d)"
    "int k \<le> max 0 (max_steps (demo_sim ''naive'' 50))"
    "steps roomy k (demo_sim ''naive'' 50) = Return (sim', d)"
    "int k = max 0 (max_steps (demo_sim ''naive'' 50)) \<or> d \<or> all_finished sim'"
    by (elim exE conjE) (rule that)
  then show ?thesis using demo_registered[of "''naive''" 50] l unfolding m by auto
qed

text \<open>
  C8, as it is written, fails when a process plans a resource that is not in the
  dictionary: the first request raises \<open>KeyError\<close>, and \<open>run\<close> ends on it in its first
  step, with no deadlock reported, the process not FINISHED and \<open>max_steps = 50\<close>.
\<close>

lemma stray_step: "step py stray_sim = Raise KeyError"
  by (simp add: step_def sweeps_def stray_sim_def Simulator_init_def step_process_def
      has_all_resources_def next_request_def request_def Let_def)

theorem run_terminates_counterexample: "run roomy stray_sim = Raise KeyError"
proof -
  have "max_steps stray_sim = 50" by (simp add: stray_sim_def Simulator_init_def)
  then have "run roomy stray_sim = run_loop roomy (Suc 49) stray_sim" by (simp add: run_def)
  then show ?thesis using stray_step by (simp only: run_loop.simps outcome.case)
qed

text \<open>
  It fails as well when the wait-for graph is deeper than the interpreter allows: with one
  nested call left, the search on two processes that wait for each other raises
  \<open>RecursionError\<close>, and \<open>run\<close> ends on it (for the default limit and a ring of 1001
  nodes, see \<open>ring_recursion_error\<close>).
\<close>

lemma crossed_sweeps: "sweeps crossed_sim = Inr crossed_sim"
  by (simp add: sweeps_def crossed_sim_def crossed_processes_def crossed_resources_def
      step_process_def request_def mark_blocked_def has_all_resources_def Let_def
      upt_rec numeral_2_eq_2)

lemma crossed_cramped: "run cramped crossed_sim = Raise RecursionError"
proof -
  have "iterated (\<lambda>vs. vs) crossed_graph = crossed_graph"
    by (simp add: iterated_def crossed_graph_def)
  moreover have "find_cycle (Suc 0) crossed_graph = Raise RecursionError"
    by (simp add: find_cycle_def crossed_graph_def graph_get_def push_def)
  ultimately have "detect_deadlock (depth cramped) (set_order cramped)
      (processes crossed_sim) (resources crossed_sim) = Raise RecursionError"
    using crossed_build by (simp add: detect_deadlock_def cramped_def crossed_sim_def)
  then have s: "step cramped crossed_sim = Raise RecursionError"
    using crossed_sweeps by (simp add: step_pure)
  have "max_steps crossed_sim = 50" by (simp add: crossed_sim_def)
  then have "run cramped crossed_sim = run_loop cramped (Suc 49) crossed_sim" by (simp add: run_def)
  then show ?thesis using s by (simp only: run_loop.simps outcome.case)
qed

subsection \<open>What \<open>step\<close> changes after the detector has been called\<close>

lemma mark_deadlocked_pid: "map pid (ps[i := mark_deadlocked (ps ! i)]) = map pid ps"
proof (cases "i < length ps")
  case True
  have "map pid (ps[i := mark_deadlocked (ps ! i)]) = (map pid ps)[i := map pid ps ! i]"
    using True by (simp add: map_update mark_deadlocked_def)
  then show ?thesis by simp
next
  case False
  then have "length ps \<le> i" by simp
  then have "ps[i := mark_deadlocked (ps ! i)] = ps" by (rule list_update_beyond)
  then show ?thesis by simp
qed

lemma mark_cycle_nth:
  "i < length ps \<Longrightarrow>
     mark_cycle cycle ps ! i =
       (if pid (ps ! i) \<in> set cycle \<and> process_by_id ps (pid (ps ! i)) = Some i
        then mark_deadlocked (ps ! i) else ps ! i)"
proof (induction cycle arbitrary: ps)
  case Nil
  then show ?case by simp
next
  case (Cons q cycle)
  show ?case
  proof (cases "process_by_id ps q")
    case None
    have "q \<notin> set (map pid ps)"
      using None index_of_Some[of q "map pid ps"] unfolding process_by_id_def by auto
    then have "pid (ps ! i) \<noteq> q" using Cons.prems by auto
    then show ?thesis using None Cons.IH[OF Cons.prems] by simp
  next
    case (Some j)
    let ?ps = "ps[j := mark_deadlocked (ps ! j)]"
    from index_of_nth[OF Some[unfolded process_by_id_def]]
    have j: "j < length ps" "pid (ps ! j) = q" by auto
    have pb: "\<And>x. process_by_id ?ps x = process_by_id ps x"
      unfolding process_by_id_def by (simp only: mark_deadlocked_pid)
    have i': "i < length ?ps" using Cons.prems by simp
    have md: "mark_deadlocked (mark_deadlocked (ps ! j)) = mark_deadlocked (ps ! j)"
      by (simp add: mark_deadlocked_def)
    have pidmd: "pid (mark_deadlocked (ps ! j)) = pid (ps ! j)" by (simp add: mark_deadlocked_def)
    have ih: "mark_cycle cycle ?ps ! i =
       (if pid (?ps ! i) \<in> set cycle \<and> process_by_id ps (pid (?ps ! i)) = Some i
        then mark_deadlocked (?ps ! i) else ?ps ! i)"
      using Cons.IH[OF i'] pb by simp
    have mc: "mark_cycle (q # cycle) ps = mark_cycle cycle ?ps" using Some by simp
    show ?thesis
    proof (cases "i = j")
      case True
      then show ?thesis using ih mc j md pidmd Some by simp
    next
      case False
      then have nth: "?ps ! i = ps ! i" by simp
      show ?thesis
      proof (cases "pid (ps ! i) = q")
        case True
        then have "process_by_id ps (pid (ps ! i)) \<noteq> Some i" using Some False by simp
        then show ?thesis using ih mc nth by simp
      next
        case F: False
        then show ?thesis using ih mc nth by simp
      qed
    qed
  qed
qed

text \<open>
  C10. \<open>build_wait_for_graph\<close> and \<open>detect_deadlock\<close>, run on the simulator's processes and
  resources, return them as they were: every process (its state, held resources and
  pending request) and every resource (its holder) is unchanged; \<open>_find_cycle\<close> is given
  only the graph. In \<open>step\<close>, between the state the two loops leave (\<open>sim1\<close>) and the state
  \<open>step\<close> ends in, the detector is called on \<open>sim1\<close> and leaves it as it is, the resources
  are the same, no process is added or removed, and a process differs only when a
  deadlock has been reported, its pid is in the reported cycle and it is the first process
  with that pid: then only its state differs, and is DEADLOCKED.
\<close>

theorem detector_frame:
  "(\<forall>g w'. build_wait_for_graph_heap w = Inr (g, w') \<longrightarrow> w' = w) \<and>
   (\<forall>r w'. detect_deadlock_heap limit order w = Return (r, w') \<longrightarrow> w' = w) \<and>
   (\<forall>sim' d. step py sim = Return (sim', d) \<longrightarrow>
      (\<exists>sim1 edges cycle.
         sweeps sim = Inr sim1 \<and>
         detect_deadlock_heap (depth py) (set_order py) (processes sim1, resources sim1) =
           Return ((d, edges, cycle), (processes sim1, resources sim1)) \<and>
         resources sim' = resources sim1 \<and>
         length (processes sim') = length (processes sim1) \<and>
         (\<forall>i < length (processes sim1).
            processes sim' ! i =
              (if d \<and> pid (processes sim1 ! i) \<in> set cycle \<and>
                  process_by_id (processes sim1) (pid (processes sim1 ! i)) = Some i
               then (processes sim1 ! i)\<lparr>state := DEADLOCKED\<rparr>
               else processes sim1 ! i))))"
proof (intro conjI allI impI)
  fix g w' assume "build_wait_for_graph_heap w = Inr (g, w')"
  then show "w' = w" unfolding build_wait_for_graph_heap_def by (rule build_loop_heap_frame)
next
  fix r w' assume a: "detect_deadlock_heap limit order w = Return (r, w')"
  then obtain built w1 where b: "build_wait_for_graph_heap w = Inr (built, w1)" and w: "w' = w1"
    by (auto simp: detect_deadlock_heap_def Let_def split: sum.splits outcome.splits)
  have "w1 = w" using b unfolding build_wait_for_graph_heap_def by (rule build_loop_heap_frame)
  then show "w' = w" using w by simp
next
  fix sim' d assume a: "step py sim = Return (sim', d)"
  then obtain sim1 where s: "sweeps sim = Inr sim1"
    by (auto simp: step_def split: sum.splits)
  obtain x where x: "detect_deadlock (depth py) (set_order py) (processes sim1) (resources sim1) =
      Return x" using a s by (auto simp: step_pure split: outcome.splits)
  obtain deadlock edges cycle where xd: "x = (deadlock, edges, cycle)" by (cases x)
  have h: "detect_deadlock_heap (depth py) (set_order py) (processes sim1, resources sim1) =
           Return ((deadlock, edges, cycle), (processes sim1, resources sim1))"
    using x xd by (simp add: detect_deadlock_heap_pure)
  show "\<exists>sim1 edges cycle.
         sweeps sim = Inr sim1 \<and>
         detect_deadlock_heap (depth py) (set_order py) (processes sim1, resources sim1) =
           Return ((d, edges, cycle), (processes sim1, resources sim1)) \<and>
         resources sim' = resources sim1 \<and>
         length (processes sim') = length (processes sim1) \<and>
         (\<forall>i < length (processes sim1).
            processes sim' ! i =
              (if d \<and> pid (processes sim1 ! i) \<in> set cycle \<and>
                  process_by_id (processes sim1) (pid (processes sim1 ! i)) = Some i
               then (processes sim1 ! i)\<lparr>state := DEADLOCKED\<rparr>
               else processes sim1 ! i))"
  proof (cases deadlock)
    case True
    then have e: "sim' = sim1\<lparr>processes := mark_cycle cycle (processes sim1)\<rparr>" "d = True"
      using a s x xd by (simp_all add: step_pure)
    have "\<forall>i < length (processes sim1).
            processes sim' ! i =
              (if d \<and> pid (processes sim1 ! i) \<in> set cycle \<and>
                  process_by_id (processes sim1) (pid (processes sim1 ! i)) = Some i
               then (processes sim1 ! i)\<lparr>state := DEADLOCKED\<rparr>
               else processes sim1 ! i)"
      using e by (simp add: mark_cycle_nth mark_deadlocked_def)
    moreover have "resources sim' = resources sim1"
      "length (processes sim') = length (processes sim1)"
      using e by (simp_all add: mark_cycle_length)
    moreover have "detect_deadlock_heap (depth py) (set_order py) (processes sim1, resources sim1) =
           Return ((d, edges, cycle), (processes sim1, resources sim1))"
      using h True e(2) by simp
    ultimately show ?thesis using s by blast
  next
    case False
    then have e: "sim' = sim1" "d = False" using a s x xd by (simp_all add: step_pure)
    then show ?thesis using s h False by auto
  qed
qed

lemma crossed_detect_heap:
  "detect_deadlock_heap 1000 (\<lambda>vs. vs) (crossed_processes, crossed_resources) =
     Return ((True, [(''P1'', ''P2''), (''P2'', ''P1'')], [''P1'', ''P2'', ''P1'']),
             (crossed_processes, crossed_resources))"
  using crossed_detect by (simp add: detect_deadlock_heap_pure)

theorem detector_frame_witness:
  "build_wait_for_graph_heap (crossed_processes, crossed_resources) =
     Inr (crossed_graph, (crossed_processes, crossed_resources)) \<and>
   detect_deadlock_heap 1000 (\<lambda>vs. vs) (crossed_processes, crossed_resources) =
     Return ((True, [(''P1'', ''P2''), (''P2'', ''P1'')], [''P1'', ''P2'', ''P1'']),
             (crossed_processes, crossed_resources)) \<and>
   (\<exists>sim'. step roomy crossed_sim = Return (sim', True) \<and>
      resources sim' = resources crossed_sim \<and>
      processes sim' ! 0 = (processes crossed_sim ! 0)\<lparr>state := DEADLOCKED\<rparr> \<and>
      processes sim' ! 1 = (processes crossed_sim ! 1)\<lparr>state := DEADLOCKED\<rparr>)"
proof -
  let ?w = "(crossed_processes, crossed_resources)"
  have b: "build_wait_for_graph_heap ?w = Inr (crossed_graph, ?w)"
    using crossed_build by (simp add: build_wait_for_graph_heap_pure)
  have pr: "processes crossed_sim = crossed_processes" "resources crossed_sim = crossed_resources"
    "depth roomy = 1000" "set_order roomy = (\<lambda>vs. vs)"
    by (simp_all add: crossed_sim_def roomy_def)
  obtain sim0 where st: "step roomy crossed_sim = Return (sim0, True)"
    using crossed_sweeps crossed_detect pr by (simp add: step_pure)
  from detector_frame[of ?w 1000 "\<lambda>vs. vs" roomy crossed_sim] st
  obtain sim1 edges cycle where s: "sweeps crossed_sim = Inr sim1"
    and d: "detect_deadlock_heap (depth roomy) (set_order roomy) (processes sim1, resources sim1) =
           Return ((True, edges, cycle), (processes sim1, resources sim1))"
    and r: "resources sim0 = resources sim1"
    and n: "\<forall>i < length (processes sim1).
            processes sim0 ! i =
              (if True \<and> pid (processes sim1 ! i) \<in> set cycle \<and>
                  process_by_id (processes sim1) (pid (processes sim1 ! i)) = Some i
               then (processes sim1 ! i)\<lparr>state := DEADLOCKED\<rparr>
               else processes sim1 ! i)"
    by blast
  have s1: "sim1 = crossed_sim" using s crossed_sweeps by simp
  have c: "cycle = [''P1'', ''P2'', ''P1'']" using d crossed_detect_heap unfolding s1 pr by simp
  have l: "length (processes crossed_sim) = 2" by (simp add: crossed_sim_def crossed_processes_def)
  have p0: "pid (processes crossed_sim ! 0) = ''P1''" "process_by_id (processes crossed_sim) ''P1'' = Some 0"
    by (simp_all add: crossed_sim_def crossed_processes_def process_by_id_def)
  have p1: "pid (processes crossed_sim ! 1) = ''P2''" "process_by_id (processes crossed_sim) ''P2'' = Some 1"
    by (simp_all add: crossed_sim_def crossed_processes_def process_by_id_def)
  have a0: "processes sim0 ! 0 = (processes crossed_sim ! 0)\<lparr>state := DEADLOCKED\<rparr>"
    using n[rule_format, of 0] l p0 unfolding s1 c by simp
  have a1: "processes sim0 ! 1 = (processes crossed_sim ! 1)\<lparr>state := DEADLOCKED\<rparr>"
    using n[rule_format, of 1] l p1 unfolding s1 c by simp
  show ?thesis using b crossed_detect_heap st r a0 a1 unfolding s1 by blast
qed

section \<open>Properties of the workers\<close>

subsection \<open>The request of the Banker worker\<close>

lemma randint_bounds:
  "1 \<le> need \<Longrightarrow> \<exists>v g'. randint g 1 need = Inr (v, g') \<and> 1 \<le> v \<and> v \<le> need"
proof -
  assume n: "1 \<le> need"
  have "0 \<le> int (g 0) mod need" "int (g 0) mod need < need" using n by simp_all
  then have "1 \<le> 1 + int (g 0) mod need" "1 + int (g 0) mod need \<le> need" by linarith+
  then show ?thesis using n by (simp add: randint_def)
qed

lemma request_loop_bounds:
  "\<exists>vs g'. request_loop remaining req g = Inr (req @ vs, g') \<and>
     list_all2 (\<lambda>need v. if 0 < need then 1 \<le> v \<and> v \<le> need else v = 0) remaining vs"
proof (induction remaining arbitrary: req g)
  case Nil
  then show ?case by simp
next
  case (Cons need rest)
  show ?case
  proof (cases "need \<le> 0")
    case True
    obtain vs g' where "request_loop rest (req @ [0]) g = Inr ((req @ [0]) @ vs, g')"
      "list_all2 (\<lambda>need v. if 0 < need then 1 \<le> v \<and> v \<le> need else v = 0) rest vs"
      using Cons.IH[of "req @ [0]" g] by blast
    then have "request_loop (need # rest) req g = Inr (req @ (0 # vs), g') \<and>
      list_all2 (\<lambda>need v. if 0 < need then 1 \<le> v \<and> v \<le> need else v = 0) (need # rest) (0 # vs)"
      using True by simp
    then show ?thesis by blast
  next
    case False
    then have "1 \<le> need" by simp
    then obtain v g1 where r: "randint g 1 need = Inr (v, g1)" "1 \<le> v" "v \<le> need"
      using randint_bounds by blast
    obtain vs g' where "request_loop rest (req @ [v]) g1 = Inr ((req @ [v]) @ vs, g')"
      "list_all2 (\<lambda>need v. if 0 < need then 1 \<le> v \<and> v \<le> need else v = 0) rest vs"
      using Cons.IH[of "req @ [v]" g1] by blast
    then have "request_loop (need # rest) req g = Inr (req @ (v # vs), g') \<and>
      list_all2 (\<lambda>need v. if 0 < need then 1 \<le> v \<and> v \<le> need else v = 0) (need # rest) (v # vs)"
      using False r by simp
    then show ?thesis by blast
  qed
qed

lemma all_zero_replicate: "list_all (\<lambda>value. value = (0::int)) xs \<Longrightarrow> xs = replicate (length xs) 0"
  by (induction xs) auto

text \<open>
  C6 (amended). For a non-empty vector of non-negative needs \<open>_build_request\<close> returns a
  request of the same length. The per-class draw is all zeros exactly when every need is
  zero; then the returned request has one component 1 and the others 0. Otherwise the
  request is the draw, every component lies between 0 and the need, and it is at least 1
  where the need is positive.
\<close>

theorem build_request_bounds:
  assumes "remaining \<noteq> []" and "\<forall>need \<in> set remaining. 0 \<le> need"
  shows "\<exists>drawn g1 req g'.
     request_loop remaining [] g = Inr (drawn, g1) \<and>
     build_request remaining g = Inr (req, g') \<and>
     length req = length remaining \<and>
     (list_all (\<lambda>value. value = 0) drawn \<longleftrightarrow> (\<forall>need \<in> set remaining. need = 0)) \<and>
     (if list_all (\<lambda>value. value = 0) drawn
      then \<exists>idx < length remaining. req = (replicate (length remaining) 0)[idx := 1]
      else within_remaining remaining req \<and>
           (\<forall>r < length remaining. 0 < remaining ! r \<longrightarrow> 1 \<le> req ! r))"
proof -
  let ?P = "\<lambda>need v. if 0 < need then 1 \<le> v \<and> v \<le> need else v = (0::int)"
  obtain drawn g1 where d: "request_loop remaining [] g = Inr (drawn, g1)"
    and l2: "list_all2 ?P remaining drawn"
    using request_loop_bounds[of remaining "[]" g] by auto
  have len: "length drawn = length remaining" using l2 by (simp add: list_all2_lengthD)
  have nth: "\<And>r. r < length remaining \<Longrightarrow> ?P (remaining ! r) (drawn ! r)"
    using l2 by (simp add: list_all2_conv_all_nth)
  have zero: "list_all (\<lambda>value. value = 0) drawn \<longleftrightarrow> (\<forall>need \<in> set remaining. need = 0)"
  proof
    assume z: "list_all (\<lambda>value. value = 0) drawn"
    show "\<forall>need \<in> set remaining. need = 0"
    proof
      fix need assume "need \<in> set remaining"
      then obtain r where r: "r < length remaining" "remaining ! r = need"
        by (auto simp: in_set_conv_nth)
      have "drawn ! r = 0" using z r(1) len by (simp add: list_all_length)
      then have "\<not> 0 < need" using nth[OF r(1)] r(2) by auto
      moreover have "0 \<le> need" using assms(2) \<open>need \<in> set remaining\<close> by blast
      ultimately show "need = 0" by simp
    qed
  next
    assume z: "\<forall>need \<in> set remaining. need = 0"
    have "\<And>r. r < length drawn \<Longrightarrow> drawn ! r = 0"
    proof -
      fix r assume r: "r < length drawn"
      then have "remaining ! r = 0" using z len by simp
      then show "drawn ! r = 0" using nth[of r] r len by simp
    qed
    then show "list_all (\<lambda>value. value = 0) drawn" by (simp add: list_all_length)
  qed
  show ?thesis
  proof (cases "list_all (\<lambda>value. value = 0) drawn")
    case True
    have pos: "0 < int (length remaining)" using assms(1) by simp
    define idx where "idx = int (g1 0) mod int (length remaining)"
    have i: "0 \<le> idx" "idx < int (length remaining)" using pos unfolding idx_def by simp_all
    have rr: "randrange g1 (int (length remaining)) = Inr (idx, rng_next g1)"
      using pos by (simp add: randrange_def idx_def)
    have ni: "nat idx < length remaining" using i by linarith
    have b: "build_request remaining g = Inr (drawn[nat idx := 1], rng_next g1)"
      using d True rr ni len by (simp add: build_request_def)
    have "drawn = replicate (length remaining) 0" using all_zero_replicate[OF True] len by simp
    then have "drawn[nat idx := 1] = (replicate (length remaining) 0)[nat idx := 1]" by simp
    then show ?thesis using d b True zero ni len by auto
  next
    case False
    have b: "build_request remaining g = Inr (drawn, g1)"
      using d False by (simp add: build_request_def)
    have w: "within_remaining remaining drawn"
      unfolding within_remaining_def
    proof (intro conjI allI impI)
      show "length drawn = length remaining" by (rule len)
    next
      fix r assume r: "r < length remaining"
      then have "0 \<le> remaining ! r" using assms(2) by simp
      then show "0 \<le> drawn ! r" using nth[OF r] by (auto split: if_splits)
    next
      fix r assume r: "r < length remaining"
      then have "0 \<le> remaining ! r" using assms(2) by simp
      then show "drawn ! r \<le> remaining ! r" using nth[OF r] by (auto split: if_splits)
    qed
    have p: "\<forall>r < length remaining. 0 < remaining ! r \<longrightarrow> 1 \<le> drawn ! r"
      using nth by auto
    show ?thesis using d b False zero len w p by auto
  qed
qed

lemma count_rng_build: "build_request [3, 0, 2] count_rng = Inr ([1, 0, 1], rng_next (rng_next count_rng))"
  by (simp add: build_request_def randint_def count_rng_def rng_next_def)

theorem build_request_bounds_witness:
  "[3, 0, 2] \<noteq> ([] :: int list) \<and> list_all (\<lambda>need. 0 \<le> need) [3, 0, 2 :: int] \<and>
   build_request [3, 0, 2] count_rng = Inr ([1, 0, 1], rng_next (rng_next count_rng)) \<and>
   within_remaining [3, 0, 2] [1, 0, 1]"
proof -
  have h: "\<forall>need \<in> set [3, 0, 2 :: int]. 0 \<le> need" by simp
  have ne: "[3, 0, 2] \<noteq> ([] :: int list)" by simp
  have dr: "request_loop [3, 0, 2] [] count_rng = Inr ([1, 0, 1], rng_next (rng_next count_rng))"
    by (simp add: randint_def count_rng_def rng_next_def)
  from build_request_bounds[OF ne h, of count_rng]
  obtain drawn g1 req g' where a: "request_loop [3, 0, 2] [] count_rng = Inr (drawn, g1)"
    "build_request [3, 0, 2] count_rng = Inr (req, g')"
    "if list_all (\<lambda>value. value = 0) drawn
      then \<exists>idx < length [3, 0, 2 :: int]. req = (replicate (length [3, 0, 2 :: int]) 0)[idx := 1]
      else within_remaining [3, 0, 2] req \<and>
           (\<forall>r < length [3, 0, 2 :: int]. 0 < [3, 0, 2 :: int] ! r \<longrightarrow> 1 \<le> req ! r)"
    by (elim exE conjE) (rule that)
  have "drawn = [1, 0, 1]" using a(1) dr by simp
  moreover have "req = [1, 0, 1]" using a(2) count_rng_build by simp
  ultimately have "within_remaining [3, 0, 2] [1, 0, 1]" using a(3) by simp
  then show ?thesis using count_rng_build by simp
qed

text \<open>
  C6, as it is written, fails on the need \<open>[0]\<close>: the draw is \<open>[0]\<close>, the forced component
  makes the request \<open>[1]\<close>, above the need. On the empty vector \<open>randrange(0)\<close> raises.
\<close>

theorem build_request_bounds_counterexample:
  "build_request [0] zero_rng = Inr ([1], zero_rng) \<and> \<not> within_remaining [0] [1]"
proof -
  have "rng_next zero_rng = zero_rng" by (simp add: rng_next_def zero_rng_def)
  then show ?thesis
    by (simp add: build_request_def randrange_def within_remaining_def zero_rng_def)
qed

lemma build_request_empty: "build_request [] g = Inl ValueError"
  by (simp add: build_request_def randrange_def)

subsection \<open>The metric record of a worker\<close>


















subsection \<open>The backoff of the retry worker\<close>











end
